theory Spec2Isabelle
  imports Main "HOL-Library.Word" "HOL-Library.Sublist"
begin

unbundle bit_operations_syntax

section \<open>Errors and file metadata\<close>

text \<open>
  Go errors as values. \<open>PathError op path err\<close> is \<^verbatim>\<open>*fs.PathError\<close>, which wraps
  \<open>err\<close>; \<open>EOF\<close> is \<^verbatim>\<open>io.EOF\<close>; the other constructors are the sentinels of
  \<^verbatim>\<open>io/fs\<close> and any further error of an underlying layer.
\<close>

datatype error =
    ErrNotExist
  | ErrInvalid
  | ErrPermission
  | EOF
  | ErrOther string
  | PathError string string error

text \<open>\<^verbatim>\<open>errors.Is(err, target)\<close>: \<open>err\<close> or an error it wraps is the target.\<close>

fun errors_Is :: "error \<Rightarrow> error \<Rightarrow> bool" where
  "errors_Is (PathError op' path err) target =
     (PathError op' path err = target \<or> errors_Is err target)"
| "errors_Is err target = (err = target)"

text \<open>
  \<^verbatim>\<open>fs.FileInfo\<close>: what the layers report about a file. \<open>Mode\<close> is an
  \<^verbatim>\<open>fs.FileMode\<close>, a \<^verbatim>\<open>uint32\<close>.
\<close>

record FileInfo =
  Name :: string
  Size :: int
  Mode :: "32 word"
  ModTime :: int
  IsDir :: bool

section \<open>Strings and paths of the Go library\<close>

text \<open>\<^verbatim>\<open>strings.IndexByte\<close>; \<open>None\<close> is the result \<open>-1\<close>.\<close>

fun IndexByte :: "string \<Rightarrow> char \<Rightarrow> nat option" where
  "IndexByte [] c = None"
| "IndexByte (b # s) c = (if b = c then Some 0 else map_option Suc (IndexByte s c))"

definition LastIndexByte :: "string \<Rightarrow> char \<Rightarrow> nat option" where
  "LastIndexByte s c = map_option (\<lambda>j. length s - 1 - j) (IndexByte (rev s) c)"

text \<open>\<^verbatim>\<open>strings.HasPrefix\<close>.\<close>

definition HasPrefix :: "string \<Rightarrow> string \<Rightarrow> bool" where
  "HasPrefix s pre = (length pre \<le> length s \<and> take (length pre) s = pre)"

text \<open>\<^verbatim>\<open>path.Split\<close>: the directory with its final slash, and the base name.\<close>

definition path_Split :: "string \<Rightarrow> string \<times> string" where
  "path_Split p =
     (case LastIndexByte p CHR ''/'' of
        None \<Rightarrow> ([], p)
      | Some i \<Rightarrow> (take (i + 1) p, drop (i + 1) p))"

text \<open>The elements of a path between its slashes.\<close>

fun split_slash :: "string \<Rightarrow> string \<Rightarrow> string list" where
  "split_slash cur [] = [rev cur]"
| "split_slash cur (c # cs) =
     (if c = CHR ''/'' then rev cur # split_slash [] cs else split_slash (c # cur) cs)"

text \<open>
  \<^verbatim>\<open>path.Clean\<close>, element by element: empty elements and \<open>.\<close> are dropped, \<open>..\<close>
  removes the element before it when there is one to remove, stays when the path is
  not rooted, and is dropped at the root. \<open>out\<close> holds the elements kept so far, the
  last one first.
\<close>

fun clean_elems :: "bool \<Rightarrow> string list \<Rightarrow> string list \<Rightarrow> string list" where
  "clean_elems rooted out [] = rev out"
| "clean_elems rooted out (e # es) =
     (if e = [] \<or> e = ''.'' then clean_elems rooted out es
      else if e = ''..'' then
        (case out of
           [] \<Rightarrow> clean_elems rooted (if rooted then [] else [''..'']) es
         | p # ps \<Rightarrow>
             if p = ''..'' then clean_elems rooted (''..'' # out) es
             else clean_elems rooted ps es)
      else clean_elems rooted (e # out) es)"

fun join_slash :: "string list \<Rightarrow> string" where
  "join_slash [] = []"
| "join_slash [e] = e"
| "join_slash (e # es) = e @ ''/'' @ join_slash es"

definition path_Clean :: "string \<Rightarrow> string" where
  "path_Clean p =
     (if p = [] then ''.''
      else
        let rooted = (hd p = CHR ''/'');
            out = join_slash (clean_elems rooted [] (split_slash [] p))
        in if rooted then CHR ''/'' # out else if out = [] then ''.'' else out)"

text \<open>\<^verbatim>\<open>path.Join\<close>: the non-empty elements joined by slashes, then cleaned.\<close>

definition path_Join :: "string list \<Rightarrow> string" where
  "path_Join elem =
     (if concat elem = [] then []
      else path_Clean (join_slash (filter (\<lambda>e. e \<noteq> []) elem)))"

text \<open>
  \<^verbatim>\<open>utf8.ValidString\<close>: the bytes are well-formed UTF-8 (no overlong forms, no
  surrogates, nothing above U+10FFFF).
\<close>

definition in_range :: "nat \<Rightarrow> nat \<Rightarrow> char \<Rightarrow> bool" where
  "in_range lo hi c = (lo \<le> of_char c \<and> (of_char c :: nat) \<le> hi)"

fun ValidString :: "string \<Rightarrow> bool" where
  "ValidString [] = True"
| "ValidString [c] = ((of_char c :: nat) < 128)"
| "ValidString (c # c1 # cs) =
     (let b = (of_char c :: nat) in
      if b < 128 then ValidString (c1 # cs)
      else if 194 \<le> b \<and> b \<le> 223 then in_range 128 191 c1 \<and> ValidString cs
      else if 224 \<le> b \<and> b \<le> 239 then
        (case cs of
           [] \<Rightarrow> False
         | c2 # cs2 \<Rightarrow>
             in_range (if b = 224 then 160 else 128) (if b = 237 then 159 else 191) c1
             \<and> in_range 128 191 c2 \<and> ValidString cs2)
      else if 240 \<le> b \<and> b \<le> 244 then
        (case cs of
           c2 # c3 # cs3 \<Rightarrow>
             in_range (if b = 240 then 144 else 128) (if b = 244 then 143 else 191) c1
             \<and> in_range 128 191 c2 \<and> in_range 128 191 c3 \<and> ValidString cs3
         | _ \<Rightarrow> False)
      else False)"

text \<open>
  \<^verbatim>\<open>fs.ValidPath\<close>: valid UTF-8, and either the root \<open>.\<close> or slash-separated
  elements none of which is empty, \<open>.\<close> or \<open>..\<close> (so no leading or trailing slash).
\<close>

function ValidPath_elems :: "string \<Rightarrow> bool" where
  "ValidPath_elems name =
     (let i = length (takeWhile (\<lambda>c. c \<noteq> CHR ''/'') name);
          elem = take i name
      in if elem = [] \<or> elem = ''.'' \<or> elem = ''..'' then False
         else if i = length name then True
         else ValidPath_elems (drop (i + 1) name))"
  by pat_completeness auto
termination
proof (relation "measure length")
  show "wf (measure length)" by simp
next
  fix name :: string and x xa
  assume "x = length (takeWhile (\<lambda>c. c \<noteq> CHR ''/'') name)"
    and "x \<noteq> length name"
  moreover have "length (takeWhile (\<lambda>c. c \<noteq> CHR ''/'') name) \<le> length name"
    by (rule length_takeWhile_le)
  ultimately show "(drop (x + 1) name, name) \<in> measure length"
    by simp
qed

declare ValidPath_elems.simps [simp del]

definition ValidPath :: "string \<Rightarrow> bool" where
  "ValidPath name =
     (if \<not> ValidString name then False
      else if name = ''.'' then True
      else ValidPath_elems name)"

section \<open>Whiteout names\<close>

definition whiteoutPrefix :: string where
  "whiteoutPrefix = ''.wh.''"

definition whiteoutOpaque :: string where
  "whiteoutOpaque = ''.wh..wh..opq''"

text \<open>\<^verbatim>\<open>whiteout(name)\<close>: the two marker paths beside \<open>name\<close>.\<close>

definition whiteout :: "string \<Rightarrow> string \<times> string" where
  "whiteout name =
     (let (dir, base) = path_Split name
      in (path_Join [dir, whiteoutPrefix @ base], path_Join [dir, whiteoutOpaque]))"

section \<open>Visibility resolution\<close>

text \<open>
  A layer is an opaque \<^verbatim>\<open>fs.FS\<close> of type \<open>'l\<close>; \<open>fs_Stat\<close> is \<^verbatim>\<open>fs.Stat\<close>, taken
  as a parameter. \<^verbatim>\<open>hasOneOf\<close> asks whether one of the names exists in the layer.
\<close>

fun hasOneOf :: "('l \<Rightarrow> string \<Rightarrow> error + FileInfo) \<Rightarrow> 'l \<Rightarrow> string list \<Rightarrow> error + bool" where
  "hasOneOf fs_Stat fsys [] = Inr False"
| "hasOneOf fs_Stat fsys (name # names) =
     (case fs_Stat fsys name of
        Inr s \<Rightarrow> Inr True
      | Inl err \<Rightarrow>
          if \<not> errors_Is err ErrNotExist then Inl err
          else hasOneOf fs_Stat fsys names)"

text \<open>
  The inner loop of \<^verbatim>\<open>lookup\<close>, over the candidates at one prefix of the path:
  \<open>i\<close> is the loop index into \<open>visibleLayers\<close>, which the loop cuts in place.
\<close>

function lookup_layers ::
  "('l \<Rightarrow> string \<Rightarrow> error + FileInfo) \<Rightarrow> string \<Rightarrow> string \<Rightarrow> string \<Rightarrow> 'l list \<Rightarrow> nat
     \<Rightarrow> error + 'l list" where
  "lookup_layers fs_Stat pth whiteoutOne whiteoutAll visibleLayers i =
     (if i < length visibleLayers then
        (case fs_Stat (visibleLayers ! i) pth of
           Inl err \<Rightarrow>
             if \<not> errors_Is err ErrNotExist then Inl err
             else lookup_layers fs_Stat pth whiteoutOne whiteoutAll
                    (take i visibleLayers @ drop (i + 1) visibleLayers) i
         | Inr s \<Rightarrow>
             if \<not> IsDir s then Inr (take (if i = 0 then i + 1 else i) visibleLayers)
             else
               (case hasOneOf fs_Stat (visibleLayers ! i) [whiteoutOne, whiteoutAll] of
                  Inl err \<Rightarrow> Inl err
                | Inr exist \<Rightarrow>
                    if exist then Inr (take (i + 1) visibleLayers)
                    else lookup_layers fs_Stat pth whiteoutOne whiteoutAll
                           visibleLayers (i + 1)))
      else Inr visibleLayers)"
  by pat_completeness auto
termination
  by (relation "measure (\<lambda>(fs_Stat, pth, whiteoutOne, whiteoutAll, visibleLayers, i).
        length visibleLayers - i)") auto

declare lookup_layers.simps [simp del]

text \<open>
  The outer loop of \<^verbatim>\<open>lookup\<close>: \<open>walk\<close> is the index in \<open>path\<close> where the next
  element starts; each round resolves the prefix that ends at the next slash.
\<close>

function lookup_walk ::
  "('l \<Rightarrow> string \<Rightarrow> error + FileInfo) \<Rightarrow> string \<Rightarrow> nat \<Rightarrow> 'l list \<Rightarrow> error + 'l list" where
  "lookup_walk fs_Stat path walk visibleLayers =
     (if walk < length path \<and> 0 < length visibleLayers then
        let walk1 = (case IndexByte (drop walk path) CHR ''/'' of
                       None \<Rightarrow> length path
                     | Some i \<Rightarrow> walk + i);
            marks = whiteout (take walk1 path)
        in (case lookup_layers fs_Stat (take walk1 path) (fst marks) (snd marks)
                   visibleLayers 0 of
              Inl err \<Rightarrow> Inl err
            | Inr visibleLayers1 \<Rightarrow> lookup_walk fs_Stat path (walk1 + 1) visibleLayers1)
      else Inr visibleLayers)"
  by pat_completeness auto
termination
  by (relation "measure (\<lambda>(fs_Stat, path, walk, visibleLayers). length path - walk)")
     (auto split: option.splits)

declare lookup_walk.simps [simp del]

definition lookup ::
  "('l \<Rightarrow> string \<Rightarrow> error + FileInfo) \<Rightarrow> string \<Rightarrow> string \<Rightarrow> 'l list \<Rightarrow> error + 'l list" where
  "lookup fs_Stat op' name layers =
     (if \<not> ValidPath name then Inl (PathError op' name ErrNotExist)
      else if name = ''.'' then Inr layers
      else
        (case lookup_walk fs_Stat name 0 layers of
           Inl err \<Rightarrow> Inl err
         | Inr visibleLayers \<Rightarrow>
             if length visibleLayers = 0 then Inl (PathError op' name ErrNotExist)
             else Inr visibleLayers))"

section \<open>Directory entries and the directories of the layers\<close>

text \<open>
  An \<^verbatim>\<open>fs.DirEntry\<close> is its name and whether it is a directory. The directory of a
  layer, an \<^verbatim>\<open>fs.ReadDirFile\<close> of the layer's own file system, is the list of the
  entries it has not returned yet and the error it ends with, if it ends with one;
  \<^verbatim>\<open>dirReader\<close> and \<^verbatim>\<open>layerFile\<close> have the fields of the source, the mask set being
  the keys of \<^verbatim>\<open>dir.masks\<close>. The cursor holds the directories by value.
\<close>

record DirEntry =
  entry_Name :: string
  entry_IsDir :: bool

record DirStream =
  pending :: "DirEntry list"
  failure :: "error option"

record dirReader =
  dir_files :: "DirStream list"
  dir_names :: "string list"
  dir_masks :: "string set"

record 'f layerFile =
  f_layers :: "'f list"
  f_name :: string
  f_dirReader :: "dirReader option"

text \<open>
  \<^verbatim>\<open>layerFS.Open\<close>: the files of the visible layers are opened in order; the second
  component is the list of the files that the deferred function closes, which is every
  file opened so far when an open fails, and none on success.
\<close>

fun open_layers ::
  "('l \<Rightarrow> string \<Rightarrow> error + 'f) \<Rightarrow> string \<Rightarrow> 'l list \<Rightarrow> 'f list
     \<Rightarrow> (error + 'f layerFile) \<times> 'f list" where
  "open_layers layer_Open name [] files =
     (Inr \<lparr>f_layers = files, f_name = name, f_dirReader = None\<rparr>, [])"
| "open_layers layer_Open name (layer # visibleLayers) files =
     (case layer_Open layer name of
        Inl err \<Rightarrow> (Inl err, files)
      | Inr f \<Rightarrow> open_layers layer_Open name visibleLayers (files @ [f]))"

definition Open ::
  "('l \<Rightarrow> string \<Rightarrow> error + FileInfo) \<Rightarrow> ('l \<Rightarrow> string \<Rightarrow> error + 'f) \<Rightarrow> string \<Rightarrow> 'l list
     \<Rightarrow> (error + 'f layerFile) \<times> 'f list" where
  "Open fs_Stat layer_Open name layers =
     (case lookup fs_Stat ''open'' name layers of
        Inl err \<Rightarrow> (Inl err, [])
      | Inr visibleLayers \<Rightarrow> open_layers layer_Open name visibleLayers [])"

text \<open>\<^verbatim>\<open>layerFS.Sub\<close> and \<^verbatim>\<open>layerFS.ReadLink\<close>, over \<^verbatim>\<open>fslink.Sub\<close> and \<^verbatim>\<open>fslink.ReadLink\<close>.\<close>

fun sub_layers :: "('l \<Rightarrow> string \<Rightarrow> error + 'l) \<Rightarrow> string \<Rightarrow> 'l list \<Rightarrow> error + 'l list" where
  "sub_layers fslink_Sub name [] = Inr []"
| "sub_layers fslink_Sub name (layer # visibleLayers) =
     (case fslink_Sub layer name of
        Inl err \<Rightarrow> Inl err
      | Inr layer' \<Rightarrow>
          (case sub_layers fslink_Sub name visibleLayers of
             Inl err \<Rightarrow> Inl err
           | Inr rest \<Rightarrow> Inr (layer' # rest)))"

definition Sub ::
  "('l \<Rightarrow> string \<Rightarrow> error + FileInfo) \<Rightarrow> ('l \<Rightarrow> string \<Rightarrow> error + 'l) \<Rightarrow> string \<Rightarrow> 'l list
     \<Rightarrow> error + 'l list" where
  "Sub fs_Stat fslink_Sub name layers =
     (case lookup fs_Stat ''open'' name layers of
        Inl err \<Rightarrow> Inl err
      | Inr visibleLayers \<Rightarrow> sub_layers fslink_Sub name visibleLayers)"

fun readlink_layers ::
  "('l \<Rightarrow> string \<Rightarrow> error + string) \<Rightarrow> string \<Rightarrow> 'l list \<Rightarrow> error + string" where
  "readlink_layers fslink_ReadLink name [] = Inl (PathError ''readlink'' name ErrNotExist)"
| "readlink_layers fslink_ReadLink name (layer # visibleLayers) =
     (case fslink_ReadLink layer name of
        Inr link \<Rightarrow> Inr link
      | Inl err \<Rightarrow>
          if errors_Is err ErrNotExist then readlink_layers fslink_ReadLink name visibleLayers
          else if errors_Is err ErrInvalid then readlink_layers fslink_ReadLink name visibleLayers
          else Inl err)"

definition ReadLink ::
  "('l \<Rightarrow> string \<Rightarrow> error + FileInfo) \<Rightarrow> ('l \<Rightarrow> string \<Rightarrow> error + string) \<Rightarrow> string \<Rightarrow> 'l list
     \<Rightarrow> error + string" where
  "ReadLink fs_Stat fslink_ReadLink name layers =
     (case lookup fs_Stat ''readlink'' name layers of
        Inl err \<Rightarrow> Inl err
      | Inr visibleLayers \<Rightarrow> readlink_layers fslink_ReadLink name visibleLayers)"

text \<open>
  \<^verbatim>\<open>layerFile.Stat\<close> and \<^verbatim>\<open>layerInfo.Mode\<close>: the metadata of \<^verbatim>\<open>f.layers[0]\<close> with
  the bits \<^verbatim>\<open>0222\<close> cleared. \<open>None\<close> is the panic of the index expression on a file
  that has no layer.
\<close>

datatype layerInfo = layerInfo FileInfo

definition layerInfo_Mode :: "layerInfo \<Rightarrow> 32 word" where
  "layerInfo_Mode info = (case info of layerInfo s \<Rightarrow> Mode s AND NOT 146)"

definition layerFile_Stat ::
  "('f \<Rightarrow> error + FileInfo) \<Rightarrow> 'f layerFile \<Rightarrow> (error + layerInfo) option" where
  "layerFile_Stat file_Stat f =
     (case f_layers f of
        [] \<Rightarrow> None
      | layer0 # lower \<Rightarrow>
          Some (case file_Stat layer0 of Inl err \<Rightarrow> Inl err | Inr s \<Rightarrow> Inr (layerInfo s)))"

text \<open>
  A path that is not normalized: it is not the root \<^verbatim>\<open>.\<close> and one of its elements is
  empty (a leading, trailing or doubled slash), \<^verbatim>\<open>.\<close> or \<^verbatim>\<open>..\<close>.
\<close>

definition not_normalized :: "string \<Rightarrow> bool" where
  "not_normalized name =
     (name \<noteq> ''.'' \<and> (\<exists>e \<in> set (split_slash [] name). e = [] \<or> e = ''.'' \<or> e = ''..''))"

text \<open>A writable file, a writable directory and a stack of three layers to try them on.\<close>

definition w_file :: FileInfo where
  "w_file = \<lparr>Name = ''f'', Size = 1, Mode = 438, ModTime = 0, IsDir = False\<rparr>"

definition w_dir :: FileInfo where
  "w_dir = \<lparr>Name = ''d'', Size = 0, Mode = 2147484159, ModTime = 0, IsDir = True\<rparr>"

definition d_Stat :: "nat \<Rightarrow> string \<Rightarrow> error + FileInfo" where
  "d_Stat l p = (if p = ''d'' \<and> l < 3 then Inr w_dir else Inl (PathError ''stat'' p ErrNotExist))"

definition d_Open :: "nat \<Rightarrow> string \<Rightarrow> error + nat" where
  "d_Open l p = (if p = ''d'' \<and> l < 2 then Inr (10 + l) else Inl (PathError ''open'' p ErrPermission))"

definition d_file_Stat :: "nat \<Rightarrow> error + FileInfo" where
  "d_file_Stat f = Inr w_dir"

section \<open>Reading a directory through the stack\<close>

text \<open>
  \<^verbatim>\<open>ReadDir(n)\<close> of a layer's directory, after the contract of \<^verbatim>\<open>fs.ReadDirFile\<close>:
  with \<open>n \<le> 0\<close> all the entries that are left and the error the directory ends
  with; with \<open>n > 0\<close> at most \<open>n\<close> entries and a nil error, or no entry and
  \<^verbatim>\<open>io.EOF\<close> (or the error the directory ends with) when none is left.
\<close>

definition stream_ReadDir :: "int \<Rightarrow> DirStream \<Rightarrow> (DirEntry list \<times> error option) \<times> DirStream" where
  "stream_ReadDir n d =
     (if n \<le> 0 then ((pending d, failure d), d\<lparr>pending := []\<rparr>)
      else if pending d = [] then
        (([], Some (case failure d of None \<Rightarrow> EOF | Some err \<Rightarrow> err)), d)
      else ((take (nat n) (pending d), None), d\<lparr>pending := drop (nat n) (pending d)\<rparr>))"

text \<open>
  The loop of \<^verbatim>\<open>dirReader.scan\<close> over the entries of one \<^verbatim>\<open>ReadDir\<close> of the current
  layer: an entry whose name is masked is skipped, the opaque marker cuts the list of
  layers to the current one, a whiteout adds the name it hides to the batch
  \<^verbatim>\<open>dir.names\<close>, and any other entry goes to the callback and adds its name to the
  batch. An error of the callback ends the scan.
\<close>

fun scan_entries ::
  "(DirEntry \<Rightarrow> 'a \<Rightarrow> error option \<times> 'a) \<Rightarrow> DirEntry list \<Rightarrow> dirReader \<Rightarrow> 'a \<Rightarrow> nat
     \<Rightarrow> error option \<times> dirReader \<times> 'a \<times> nat" where
  "scan_entries f [] dir acc dirents = (None, dir, acc, dirents)"
| "scan_entries f (entry # entries) dir acc dirents =
     (let name = entry_Name entry in
      if name \<in> dir_masks dir then scan_entries f entries dir acc dirents
      else if name = whiteoutOpaque then
        scan_entries f entries (dir\<lparr>dir_files := take 1 (dir_files dir)\<rparr>) acc dirents
      else if HasPrefix name whiteoutPrefix then
        scan_entries f entries
          (dir\<lparr>dir_names := dir_names dir @ [drop (length whiteoutPrefix) name]\<rparr>) acc dirents
      else
        (case f entry acc of
           (Some err, acc') \<Rightarrow> (Some err, dir\<lparr>dir_names := dir_names dir @ [name]\<rparr>, acc', dirents)
         | (None, acc') \<Rightarrow>
             scan_entries f entries (dir\<lparr>dir_names := dir_names dir @ [name]\<rparr>) acc'
               (dirents + 1)))"

text \<open>
  The inner loop of \<^verbatim>\<open>scan\<close>, which reads the current layer \<^verbatim>\<open>dir.files[0]\<close> until it
  leaves by \<^verbatim>\<open>break\<close> or by \<^verbatim>\<open>return\<close>. It is called with a layer to read only;
  \<open>None\<close> is a loop that does not end. \<^verbatim>\<open>scan\<close> is called with \<open>n \<ge> 0\<close>, so the
  count is a natural number.
\<close>

datatype loop_exit = Break | Return "error option"

partial_function (option) scan_layer ::
  "nat \<Rightarrow> (DirEntry \<Rightarrow> 'a \<Rightarrow> error option \<times> 'a) \<Rightarrow> dirReader \<Rightarrow> 'a \<Rightarrow> nat
     \<Rightarrow> (loop_exit \<times> dirReader \<times> 'a \<times> nat) option" where
  "scan_layer n f dir acc dirents =
     (case dir_files dir of
        [] \<Rightarrow> None
      | file # files \<Rightarrow>
          (case stream_ReadDir (int n - int dirents) file of
             ((entries, err), file') \<Rightarrow>
               (case scan_entries f entries (dir\<lparr>dir_files := file' # files\<rparr>) acc dirents of
                  (Some cberr, dir', acc', dirents') \<Rightarrow> Some (Return (Some cberr), dir', acc', dirents')
                | (None, dir', acc', dirents') \<Rightarrow>
                    if n = 0 \<or> err = Some EOF then Some (Break, dir', acc', dirents')
                    else if n = dirents' \<or> err \<noteq> None then Some (Return err, dir', acc', dirents')
                    else scan_layer n f dir' acc' dirents')))"

declare scan_layer.simps [code]

text \<open>
  After the \<^verbatim>\<open>break\<close>: the names of the batch go to the mask set, the batch is
  emptied and the layer is left. The outer loop runs while a layer is left, and ends
  with \<^verbatim>\<open>io.EOF\<close> when fewer than \<open>n\<close> entries were delivered.
\<close>

definition apply_names :: "dirReader \<Rightarrow> dirReader" where
  "apply_names dir =
     dir\<lparr>dir_masks := dir_masks dir \<union> set (dir_names dir),
         dir_names := [],
         dir_files := drop 1 (dir_files dir)\<rparr>"

partial_function (option) scan_loop ::
  "nat \<Rightarrow> (DirEntry \<Rightarrow> 'a \<Rightarrow> error option \<times> 'a) \<Rightarrow> dirReader \<Rightarrow> 'a \<Rightarrow> nat
     \<Rightarrow> (error option \<times> dirReader \<times> 'a) option" where
  "scan_loop n f dir acc dirents =
     (if 0 < length (dir_files dir) then
        (case scan_layer n f dir acc dirents of
           None \<Rightarrow> None
         | Some (Return err, dir', acc', dirents') \<Rightarrow> Some (err, dir', acc')
         | Some (Break, dir', acc', dirents') \<Rightarrow>
             scan_loop n f (apply_names dir') acc' dirents')
      else Some (if dirents < n then Some EOF else None, dir, acc))"

declare scan_loop.simps [code]

definition scan ::
  "nat \<Rightarrow> (DirEntry \<Rightarrow> 'a \<Rightarrow> error option \<times> 'a) \<Rightarrow> dirReader \<Rightarrow> 'a
     \<Rightarrow> (error option \<times> dirReader \<times> 'a) option" where
  "scan n f dir acc = scan_loop n f dir acc 0"

text \<open>
  \<^verbatim>\<open>layerFile.ReadDir\<close>: the cursor is made on the first call from the layers that
  are directories (\<open>as_ReadDirFile\<close> is the type assertion), a negative count is read
  as \<open>0\<close>, and the callback appends the entry to the result.
\<close>

definition collect :: "DirEntry \<Rightarrow> DirEntry list \<Rightarrow> error option \<times> DirEntry list" where
  "collect e ret = (None, ret @ [e])"

definition new_dirReader :: "('f \<Rightarrow> DirStream option) \<Rightarrow> 'f list \<Rightarrow> dirReader" where
  "new_dirReader as_ReadDirFile layers =
     \<lparr>dir_files = List.map_filter as_ReadDirFile layers, dir_names = [], dir_masks = {}\<rparr>"

definition cursor :: "('f \<Rightarrow> DirStream option) \<Rightarrow> 'f layerFile \<Rightarrow> dirReader" where
  "cursor as_ReadDirFile f =
     (case f_dirReader f of
        None \<Rightarrow> new_dirReader as_ReadDirFile (f_layers f)
      | Some dir \<Rightarrow> dir)"

definition ReadDir ::
  "('f \<Rightarrow> DirStream option) \<Rightarrow> int \<Rightarrow> 'f layerFile
     \<Rightarrow> ((DirEntry list \<times> error option) \<times> 'f layerFile) option" where
  "ReadDir as_ReadDirFile n f =
     (let dir = cursor as_ReadDirFile f;
          n' = (if n < 0 then 0 else n)
      in case scan (nat n') collect dir [] of
           None \<Rightarrow> None
         | Some (err, dir', ret) \<Rightarrow> Some ((ret, err), f\<lparr>f_dirReader := Some dir'\<rparr>))"

subsection \<open>The merged view\<close>

text \<open>
  What the merged directory is, written from the layers and not from the code that
  reads them. An entry is listed under a mask set when its name is neither masked nor a
  whiteout name;
  \<open>entry_names\<close> are the names a list of entries masks below it: the names of the
  entries listed and the names its whiteouts hide; \<open>opaque_in\<close> tells whether an
  opaque marker that is not masked is among the entries. The \<open>listing\<close> of a list of
  layers is what the first layer lists, then the listing of the layers below it under
  the mask set grown by the batch and the names of the first layer, these layers being
  none when the first one is opaque. \<open>listing_of\<close> is the listing of what a cursor has
  left to read.
\<close>

definition emits :: "string set \<Rightarrow> DirEntry \<Rightarrow> bool" where
  "emits masks entry =
     (entry_Name entry \<notin> masks \<and> entry_Name entry \<noteq> whiteoutOpaque
      \<and> \<not> HasPrefix (entry_Name entry) whiteoutPrefix)"

fun entry_names :: "string set \<Rightarrow> DirEntry list \<Rightarrow> string list" where
  "entry_names masks [] = []"
| "entry_names masks (entry # entries) =
     (if entry_Name entry \<in> masks \<or> entry_Name entry = whiteoutOpaque
      then entry_names masks entries
      else if HasPrefix (entry_Name entry) whiteoutPrefix
      then drop (length whiteoutPrefix) (entry_Name entry) # entry_names masks entries
      else entry_Name entry # entry_names masks entries)"

definition opaque_in :: "string set \<Rightarrow> DirEntry list \<Rightarrow> bool" where
  "opaque_in masks entries =
     (whiteoutOpaque \<notin> masks \<and> whiteoutOpaque \<in> entry_Name ` set entries)"

fun listing :: "string set \<Rightarrow> string list \<Rightarrow> DirStream list \<Rightarrow> DirEntry list" where
  "listing masks names [] = []"
| "listing masks names (file # files) =
     filter (emits masks) (pending file)
     @ listing (masks \<union> set (names @ entry_names masks (pending file))) []
         (if opaque_in masks (pending file) then [] else files)"

text \<open>
  The cursor after the part \<open>p\<close> of the current layer has been read and \<open>q\<close> is left.
\<close>

definition advance :: "dirReader \<Rightarrow> DirEntry list \<Rightarrow> DirEntry list \<Rightarrow> dirReader" where
  "advance dir p q =
     dir\<lparr>dir_files :=
           (case dir_files dir of
              [] \<Rightarrow> []
            | file # files \<Rightarrow>
                if opaque_in (dir_masks dir) p then [file\<lparr>pending := q\<rparr>]
                else file\<lparr>pending := q\<rparr> # files),
         dir_names := dir_names dir @ entry_names (dir_masks dir) p\<rparr>"

definition listing_of :: "dirReader \<Rightarrow> DirEntry list" where
  "listing_of dir = listing (dir_masks dir) (dir_names dir) (dir_files dir)"

text \<open>
  What a call of \<^verbatim>\<open>scan\<close> with a positive count establishes: the entries delivered are
  the head of the listing and the cursor holds the rest, the mask set has grown, no
  error of a layer has appeared from nowhere, the names delivered are masked or in the
  batch, and the error returned is nil with the count reached, \<^verbatim>\<open>io.EOF\<close> with no
  layer left, or the error of the current layer.
\<close>

definition scan_post ::
  "nat \<Rightarrow> nat \<Rightarrow> dirReader \<Rightarrow> error option \<Rightarrow> dirReader \<Rightarrow> DirEntry list \<Rightarrow> bool" where
  "scan_post n dirents dir err dir' out =
     (listing_of dir = out @ listing_of dir'
      \<and> dir_masks dir \<subseteq> dir_masks dir'
      \<and> failure ` set (dir_files dir') \<subseteq> failure ` set (dir_files dir)
      \<and> entry_Name ` set out \<union> set (dir_names dir) \<subseteq> dir_masks dir' \<union> set (dir_names dir')
      \<and> (err = None \<and> dirents + length out = n
         \<or> err = Some EOF \<and> dirents + length out < n \<and> dir_files dir' = []
         \<or> (\<exists>e fl fls. err = Some e \<and> e \<noteq> EOF \<and> dirents + length out < n
               \<and> dir_files dir' = fl # fls \<and> failure fl = Some e \<and> pending fl = [])))"

text \<open>A sequence of \<^verbatim>\<open>ReadDir\<close> calls on one handle, and the entries they return.\<close>

fun ReadDirs ::
  "('f \<Rightarrow> DirStream option) \<Rightarrow> int list \<Rightarrow> 'f layerFile
     \<Rightarrow> (DirEntry list \<times> 'f layerFile) option" where
  "ReadDirs as_ReadDirFile [] f = Some ([], f)"
| "ReadDirs as_ReadDirFile (n # ns) f =
     (case ReadDir as_ReadDirFile n f of
        None \<Rightarrow> None
      | Some ((ret, err), f') \<Rightarrow>
          (case ReadDirs as_ReadDirFile ns f' of
             None \<Rightarrow> None
           | Some (rets, f'') \<Rightarrow> Some (ret @ rets, f'')))"

text \<open>
  A directory \<^verbatim>\<open>a/b/c\<close> over three layers, after the layout of the repository's test:
  the top layer deletes \<^verbatim>\<open>d\<close>, which the two layers below have.
\<close>

definition w_entry :: "string \<Rightarrow> DirEntry" where
  "w_entry name = \<lparr>entry_Name = name, entry_IsDir = False\<rparr>"

definition w_stream :: "string list \<Rightarrow> DirStream" where
  "w_stream names = \<lparr>pending = map w_entry names, failure = None\<rparr>"

definition w_handle :: "DirStream layerFile" where
  "w_handle =
     \<lparr>f_layers = [w_stream [''file-1'', ''.wh.d''], w_stream [''file-0'', ''d''], w_stream [''d'']],
      f_name = ''a/b/c'', f_dirReader = None\<rparr>"

text \<open>
  Directories for the whiteout and the opaque marker: a stack whose top layer masks the
  marker of the layer below, and stacks where the marker is read, each with the stack
  cut below the layer of the marker.
\<close>

definition c2_handle :: "DirStream layerFile" where
  "c2_handle =
     \<lparr>f_layers = [w_stream [''.wh..wh.x''], w_stream [''.wh.x''], w_stream [''x'']],
      f_name = ''d'', f_dirReader = None\<rparr>"

definition c2_top :: "DirStream layerFile" where
  "c2_top =
     \<lparr>f_layers = [w_stream [''.wh..wh.x''], w_stream [''.wh.x'']],
      f_name = ''d'', f_dirReader = None\<rparr>"

definition wh_handle :: "DirStream layerFile" where
  "wh_handle =
     \<lparr>f_layers = [w_stream [''file-1''], w_stream [''.wh.d'', ''file-0''], w_stream [''d'', ''e'']],
      f_name = ''d'', f_dirReader = None\<rparr>"

definition wh_top :: "DirStream layerFile" where
  "wh_top =
     \<lparr>f_layers = [w_stream [''file-1''], w_stream [''.wh.d'', ''file-0'']],
      f_name = ''d'', f_dirReader = None\<rparr>"

definition c3_handle :: "DirStream layerFile" where
  "c3_handle =
     \<lparr>f_layers = [w_stream [''.wh..wh..wh..opq''], w_stream [''.wh..wh..opq'', ''a''],
                 w_stream [''b'']],
      f_name = ''d'', f_dirReader = None\<rparr>"

definition c3_top :: "DirStream layerFile" where
  "c3_top =
     \<lparr>f_layers = [w_stream [''.wh..wh..wh..opq''], w_stream [''.wh..wh..opq'', ''a'']],
      f_name = ''d'', f_dirReader = None\<rparr>"

definition op_handle :: "DirStream layerFile" where
  "op_handle =
     \<lparr>f_layers = [w_stream [''a''], w_stream [''.wh..wh..opq'', ''b''], w_stream [''c'']],
      f_name = ''d'', f_dirReader = None\<rparr>"

definition op_top :: "DirStream layerFile" where
  "op_top =
     \<lparr>f_layers = [w_stream [''a''], w_stream [''.wh..wh..opq'', ''b'']],
      f_name = ''d'', f_dirReader = None\<rparr>"

subsection \<open>One level of the visibility walk\<close>

text \<open>
  A layer lacks a path when \<^verbatim>\<open>fs.Stat\<close> answers with an error that is
  \<^verbatim>\<open>fs.ErrNotExist\<close>. \<open>lookup_level\<close> is the scan of the candidates at one prefix as
  a recursion on the candidates that are left, \<open>kept\<close> being those before them that
  stay: it is shown equal to \<open>lookup_layers\<close>, which removes by index as the source
  does.
\<close>

definition not_exist :: "('l \<Rightarrow> string \<Rightarrow> error + FileInfo) \<Rightarrow> 'l \<Rightarrow> string \<Rightarrow> bool" where
  "not_exist fs_Stat layer pth =
     (case fs_Stat layer pth of Inl err \<Rightarrow> errors_Is err ErrNotExist | Inr s \<Rightarrow> False)"

fun lookup_level ::
  "('l \<Rightarrow> string \<Rightarrow> error + FileInfo) \<Rightarrow> string \<Rightarrow> string \<Rightarrow> string \<Rightarrow> 'l list \<Rightarrow> 'l list
     \<Rightarrow> error + 'l list" where
  "lookup_level fs_Stat pth whiteoutOne whiteoutAll kept [] = Inr kept"
| "lookup_level fs_Stat pth whiteoutOne whiteoutAll kept (layer # rest) =
     (case fs_Stat layer pth of
        Inl err \<Rightarrow>
          if \<not> errors_Is err ErrNotExist then Inl err
          else lookup_level fs_Stat pth whiteoutOne whiteoutAll kept rest
      | Inr s \<Rightarrow>
          if \<not> IsDir s then Inr (if kept = [] then [layer] else kept)
          else
            (case hasOneOf fs_Stat layer [whiteoutOne, whiteoutAll] of
               Inl err \<Rightarrow> Inl err
             | Inr exist \<Rightarrow>
                 if exist then Inr (kept @ [layer])
                 else lookup_level fs_Stat pth whiteoutOne whiteoutAll (kept @ [layer]) rest))"

text \<open>Three layers with a directory \<^verbatim>\<open>a\<close>; \<^verbatim>\<open>a/b\<close> is a file in layer 1 and a directory in layer 2.\<close>

definition s_Stat :: "nat \<Rightarrow> string \<Rightarrow> error + FileInfo" where
  "s_Stat l p =
     (if p = ''a'' \<and> l < 3 then Inr w_dir
      else if p = ''a/b'' \<and> l = 1 then Inr w_file
      else if p = ''a/b'' \<and> l = 2 then Inr w_dir
      else if p = ''a/b/c'' \<and> l = 2 then Inr w_file
      else Inl (PathError ''stat'' p ErrNotExist))"

subsection \<open>The mask set of the layers that were read to their end\<close>

text \<open>
  \<open>drained masks layers\<close> is the mask set after the layers have been read to their end
  one after the other, from the mask set \<open>masks\<close> and an empty batch: each layer adds
  the names it contributes under the mask set of the layers before it. \<open>emitted\<close> are
  the entries these layers list on the way. \<open>position\<close> places a cursor in a list of
  layers: the layers \<open>past\<close> have been read to their end, and either no layer is left
  to read, or the cursor is at the layer \<open>cur\<close> that follows them, of which \<open>p\<close> has
  been read and \<open>q\<close> is left, with the layers \<open>lower\<close> below it unless \<open>p\<close> holds
  an opaque marker.
\<close>

fun drained :: "string set \<Rightarrow> DirStream list \<Rightarrow> string set" where
  "drained masks [] = masks"
| "drained masks (fl # fls) = drained (masks \<union> set (entry_names masks (pending fl))) fls"

fun emitted :: "string set \<Rightarrow> DirStream list \<Rightarrow> DirEntry list" where
  "emitted masks [] = []"
| "emitted masks (fl # fls) =
     filter (emits masks) (pending fl)
     @ emitted (masks \<union> set (entry_names masks (pending fl))) fls"

definition position ::
  "DirStream list \<Rightarrow> DirStream list \<Rightarrow> DirEntry list \<Rightarrow> DirEntry list \<Rightarrow> dirReader \<Rightarrow> bool" where
  "position layers past p q dir =
     (dir_masks dir = drained {} past
      \<and> dir_names dir = entry_names (drained {} past) p
      \<and> (dir_files dir = [] \<and> p = [] \<and> prefix past layers
         \<or> (\<exists>cur lower. layers = past @ cur # lower \<and> pending cur = p @ q
               \<and> dir_files dir =
                   cur\<lparr>pending := q\<rparr>
                   # (if opaque_in (drained {} past) p then [] else lower))))"

text \<open>A directory whose top layer deletes \<^verbatim>\<open>b\<close> and has a \<^verbatim>\<open>b\<close> of its own.\<close>

definition m_handle :: "DirStream layerFile" where
  "m_handle =
     \<lparr>f_layers = [w_stream [''.wh.b'', ''a'', ''b''], w_stream [''b'', ''c'']],
      f_name = ''d'', f_dirReader = None\<rparr>"

subsection \<open>Errors of the layers\<close>

text \<open>
  A candidate is passed over by the scan at a prefix when it lacks the prefix, or has it
  as a directory with neither whiteout marker beside it.
\<close>

definition passes ::
  "('l \<Rightarrow> string \<Rightarrow> error + FileInfo) \<Rightarrow> string \<Rightarrow> string \<Rightarrow> string \<Rightarrow> 'l \<Rightarrow> bool" where
  "passes fs_Stat pth whiteoutOne whiteoutAll layer =
     (not_exist fs_Stat layer pth
      \<or> (case fs_Stat layer pth of
            Inl err \<Rightarrow> False
          | Inr s \<Rightarrow> IsDir s \<and> hasOneOf fs_Stat layer [whiteoutOne, whiteoutAll] = Inr False))"

text \<open>
  Layers of which the first lacks \<^verbatim>\<open>a\<close>, \<^verbatim>\<open>fs.Stat\<close> is refused on the second, and
  the fourth refuses it on the opaque marker; directories in which a layer ends with a
  permission error, at the top and below a layer that ends well; and one whose top
  layer ends with a not-exist error.
\<close>

definition e_Stat :: "nat \<Rightarrow> string \<Rightarrow> error + FileInfo" where
  "e_Stat l p =
     (if p = ''a'' \<and> l = 1 then Inl (PathError ''stat'' p ErrPermission)
      else if p = ''a'' \<and> (l = 2 \<or> l = 3) then Inr w_dir
      else if p = ''.wh..wh..opq'' \<and> l = 3 then Inl (PathError ''stat'' p ErrPermission)
      else Inl (PathError ''stat'' p ErrNotExist))"

definition e_handle :: "DirStream layerFile" where
  "e_handle =
     \<lparr>f_layers = [\<lparr>pending = [w_entry ''a''], failure = Some ErrPermission\<rparr>, w_stream [''x'']],
      f_name = ''d'', f_dirReader = None\<rparr>"

definition e2_handle :: "DirStream layerFile" where
  "e2_handle =
     \<lparr>f_layers = [w_stream [''a''],
                 \<lparr>pending = [w_entry ''b''], failure = Some ErrPermission\<rparr>,
                 w_stream [''x'']],
      f_name = ''d'', f_dirReader = None\<rparr>"

definition c8_handle :: "DirStream layerFile" where
  "c8_handle =
     \<lparr>f_layers = [\<lparr>pending = [], failure = Some (PathError ''readdir'' ''d'' ErrNotExist)\<rparr>,
                 w_stream [''x'']],
      f_name = ''d'', f_dirReader = None\<rparr>"

section \<open>Properties\<close>

lemma split_slash_takeWhile:
  "split_slash cur s =
     (rev cur @ takeWhile (\<lambda>c. c \<noteq> CHR ''/'') s) #
     (if length (takeWhile (\<lambda>c. c \<noteq> CHR ''/'') s) = length s then []
      else split_slash [] (drop (length (takeWhile (\<lambda>c. c \<noteq> CHR ''/'') s) + 1) s))"
  by (induction s arbitrary: cur) auto

lemma ValidPath_elems_iff:
  "ValidPath_elems name = (\<forall>e \<in> set (split_slash [] name). e \<noteq> [] \<and> e \<noteq> ''.'' \<and> e \<noteq> ''..'')"
proof (induction name rule: ValidPath_elems.induct)
  case (1 name)
  let ?i = "length (takeWhile (\<lambda>c. c \<noteq> CHR ''/'') name)"
  have tk: "take ?i name = takeWhile (\<lambda>c. c \<noteq> CHR ''/'') name"
    by (metis takeWhile_eq_take)
  show ?case
    apply (subst ValidPath_elems.simps)
    apply (subst split_slash_takeWhile)
    using 1 tk by (auto simp: Let_def)
qed

lemma open_layers_fail:
  "list_all2 (\<lambda>l f. layer_Open l name = Inr f) xs opened \<Longrightarrow> layer_Open l name = Inl err \<Longrightarrow>
     open_layers layer_Open name (xs @ l # ys) files = (Inl err, files @ opened)"
  by (induction xs arbitrary: opened files) (auto simp: list_all2_Cons1)

lemma open_layers_ok:
  "list_all2 (\<lambda>l f. layer_Open l name = Inr f) xs opened \<Longrightarrow>
     open_layers layer_Open name xs files =
       (Inr \<lparr>f_layers = files @ opened, f_name = name, f_dirReader = None\<rparr>, [])"
  by (induction xs arbitrary: opened files) (auto simp: list_all2_Cons1)

lemma open_layers_cases:
  "(\<exists>xs l ys err opened. vis = xs @ l # ys \<and> list_all2 (\<lambda>l f. layer_Open l name = Inr f) xs opened \<and> layer_Open l name = Inl err)
   \<or> (\<exists>opened. list_all2 (\<lambda>l f. layer_Open l name = Inr f) vis opened)"
proof (induction vis)
  case Nil
  then show ?case by simp
next
  case (Cons a vis)
  show ?case
  proof (cases "layer_Open a name")
    case (Inl e)
    then show ?thesis by (metis append_Nil list_all2_Nil)
  next
    case (Inr f)
    from Cons show ?thesis
    proof
      assume "\<exists>xs l ys err opened. vis = xs @ l # ys \<and> list_all2 (\<lambda>l f. layer_Open l name = Inr f) xs opened \<and> layer_Open l name = Inl err"
      then obtain xs l ys err opened where "vis = xs @ l # ys" "list_all2 (\<lambda>l f. layer_Open l name = Inr f) xs opened" "layer_Open l name = Inl err" by blast
      then have "a # vis = (a # xs) @ l # ys \<and> list_all2 (\<lambda>l f. layer_Open l name = Inr f) (a # xs) (f # opened) \<and> layer_Open l name = Inl err"
        using Inr by simp
      then show ?thesis by blast
    next
      assume "\<exists>opened. list_all2 (\<lambda>l f. layer_Open l name = Inr f) vis opened"
      then obtain opened where "list_all2 (\<lambda>l f. layer_Open l name = Inr f) vis opened" by blast
      then have "list_all2 (\<lambda>l f. layer_Open l name = Inr f) (a # vis) (f # opened)" using Inr by simp
      then show ?thesis by blast
    qed
  qed
qed

lemma not_normalized_invalid: "not_normalized name \<Longrightarrow> \<not> ValidPath name"
  by (auto simp: not_normalized_def ValidPath_def ValidPath_elems_iff)

lemma lookup_invalid:
  "\<not> ValidPath name \<Longrightarrow> lookup fs_Stat op' name layers = Inl (PathError op' name ErrNotExist)"
  by (simp add: lookup_def)

text \<open>
  Claim C9, as amended. A path that is absolute, has an empty element, or has an element
  \<open>.\<close> or \<open>..\<close> (or that \<^verbatim>\<open>fs.ValidPath\<close> rejects for another reason) makes
  \<^verbatim>\<open>Open\<close>, \<^verbatim>\<open>Sub\<close> and \<^verbatim>\<open>ReadLink\<close> fail with a \<^verbatim>\<open>PathError\<close> that wraps
  \<^verbatim>\<open>fs.ErrNotExist\<close>: the error is in the Not Found category, not in a category of
  its own, it names the operation and the path, and no layer file is opened.
\<close>

theorem invalid_path_not_exist:
  assumes "not_normalized name \<or> \<not> ValidPath name"
  shows "Open fs_Stat layer_Open name layers = (Inl (PathError ''open'' name ErrNotExist), [])
       \<and> Sub fs_Stat fslink_Sub name layers = Inl (PathError ''open'' name ErrNotExist)
       \<and> ReadLink fs_Stat fslink_ReadLink name layers = Inl (PathError ''readlink'' name ErrNotExist)
       \<and> errors_Is (PathError ''open'' name ErrNotExist) ErrNotExist
       \<and> \<not> errors_Is (PathError ''open'' name ErrNotExist) ErrInvalid"
proof -
  from assms have "\<not> ValidPath name"
    using not_normalized_invalid by blast
  then show ?thesis
    by (simp add: Open_def Sub_def ReadLink_def lookup_invalid)
qed

lemma abs_not_normalized: "not_normalized ''/a''"
  by (simp add: not_normalized_def)

theorem invalid_path_not_exist_witness:
  "Open (\<lambda>(l::nat) p. Inl ErrNotExist) (\<lambda>l p. Inr (l::nat)) ''/a'' [0, 1]
     = (Inl (PathError ''open'' ''/a'' ErrNotExist), [])
   \<and> Sub (\<lambda>(l::nat) p. Inl ErrNotExist) (\<lambda>l p. Inr l) ''/a'' [0, 1]
     = Inl (PathError ''open'' ''/a'' ErrNotExist)
   \<and> ReadLink (\<lambda>(l::nat) p. Inl ErrNotExist) (\<lambda>l p. Inr ''t'') ''/a'' [0, 1]
     = Inl (PathError ''readlink'' ''/a'' ErrNotExist)"
  using invalid_path_not_exist [of "''/a''", OF disjI1, OF abs_not_normalized] by blast

text \<open>
  Claim C9 as stated fails: the path \<open>a/../b\<close> is not valid, and \<^verbatim>\<open>Open\<close> answers with
  an error that is \<^verbatim>\<open>fs.ErrNotExist\<close> and is not \<^verbatim>\<open>fs.ErrInvalid\<close>.
\<close>

theorem invalid_path_counterexample:
  "\<not> ValidPath ''a/../b''
   \<and> fst (Open (\<lambda>(l::nat) p. Inl ErrNotExist) (\<lambda>l p. Inr (l::nat)) ''a/../b'' [0, 1])
       = Inl (PathError ''open'' ''a/../b'' ErrNotExist)
   \<and> errors_Is (PathError ''open'' ''a/../b'' ErrNotExist) ErrNotExist
   \<and> \<not> errors_Is (PathError ''open'' ''a/../b'' ErrNotExist) ErrInvalid"
  by (simp add: Open_def lookup_def ValidPath_def ValidPath_elems_iff)

lemma lookup_nonempty:
  "lookup fs_Stat op' name layers = Inr vis \<Longrightarrow> layers \<noteq> [] \<Longrightarrow> vis \<noteq> []"
  by (auto simp: lookup_def split: if_splits sum.splits)

lemma open_layers_Inr:
  assumes "open_layers layer_Open name vis files = (Inr f, closed)"
  shows "\<exists>opened. list_all2 (\<lambda>l f. layer_Open l name = Inr f) vis opened
           \<and> f = \<lparr>f_layers = files @ opened, f_name = name, f_dirReader = None\<rparr> \<and> closed = []"
  using open_layers_cases [of vis layer_Open name] assms
  by (auto simp: open_layers_fail open_layers_ok)

lemma clear_bits:
  fixes m k :: "32 word"
  shows "(m AND NOT k) AND k = 0" and "(m AND NOT k) OR (m AND k) = m"
  by (rule bit_eqI; auto simp: bit_and_iff bit_or_iff bit_not_iff)+

lemma layerInfo_Mode_bits:
  "layerInfo_Mode (layerInfo s) = Mode s AND NOT 146
   \<and> layerInfo_Mode (layerInfo s) AND 146 = 0
   \<and> layerInfo_Mode (layerInfo s) OR (Mode s AND 146) = Mode s"
  unfolding layerInfo_Mode_def layerInfo.case
  using clear_bits [of "Mode s" 146] by blast

text \<open>
  Claim C7. For a file opened through a stack that has a layer, \<^verbatim>\<open>Stat\<close> answers with the
  metadata of the file opened from the topmost visible layer, whatever mode \<open>s\<close> that
  file reports: the mode is the layer's with the bits of \<^verbatim>\<open>0222\<close> (146: owner, group
  and other write) cleared, none of the three is set in it, and every other bit is the
  layer's.
\<close>

theorem Stat_clears_write_bits:
  assumes "Open fs_Stat layer_Open name layers = (Inr f, closed)" and "layers \<noteq> []"
    and "layerFile_Stat file_Stat f = Some (Inr info)"
  shows "\<exists>visibleLayers layer0 lower s.
           lookup fs_Stat ''open'' name layers = Inr visibleLayers
         \<and> layer_Open (hd visibleLayers) name = Inr layer0
         \<and> f_layers f = layer0 # lower
         \<and> file_Stat layer0 = Inr s \<and> info = layerInfo s
         \<and> layerInfo_Mode info = Mode s AND NOT 146
         \<and> layerInfo_Mode info AND 146 = 0
         \<and> layerInfo_Mode info OR (Mode s AND 146) = Mode s"
proof -
  from assms(1) obtain vis where lk: "lookup fs_Stat ''open'' name layers = Inr vis"
    and op: "open_layers layer_Open name vis [] = (Inr f, closed)"
    by (auto simp: Open_def split: sum.splits)
  from lk assms(2) have "vis \<noteq> []" by (rule lookup_nonempty)
  then obtain v vs where vis: "vis = v # vs" by (cases vis) auto
  from open_layers_Inr [OF op] obtain opened where
    all: "list_all2 (\<lambda>l f. layer_Open l name = Inr f) vis opened"
    and f: "f = \<lparr>f_layers = [] @ opened, f_name = name, f_dirReader = None\<rparr>"
    by blast
  from all vis obtain layer0 lower where o: "opened = layer0 # lower"
    and l0: "layer_Open v name = Inr layer0"
    by (auto simp: list_all2_Cons1)
  from assms(3) f o obtain s where s: "file_Stat layer0 = Inr s" and i: "info = layerInfo s"
    by (auto simp: layerFile_Stat_def split: sum.splits)
  have "f_layers f = layer0 # lower"
    using f o by simp
  moreover have "layer_Open (hd vis) name = Inr layer0"
    using vis l0 by simp
  ultimately show ?thesis
    using lk s i layerInfo_Mode_bits [of s] by blast
qed

text \<open>
  Claim C6. Let \<^verbatim>\<open>Open\<close> resolve the visible layers. If opening succeeds in the first
  \<open>N\<close> of them, giving the files \<open>opened\<close>, and fails in the next, then \<^verbatim>\<open>Open\<close>
  returns that error and no file, and the files it closed are exactly \<open>opened\<close>. If
  opening succeeds in every visible layer, the file returned holds all the opened files
  and none was closed.
\<close>

theorem Open_closes_on_failure:
  assumes "lookup fs_Stat ''open'' name layers = Inr visibleLayers"
  shows "(\<forall>N opened err.
            N < length visibleLayers
            \<and> list_all2 (\<lambda>l f. layer_Open l name = Inr f) (take N visibleLayers) opened
            \<and> layer_Open (visibleLayers ! N) name = Inl err
            \<longrightarrow> Open fs_Stat layer_Open name layers = (Inl err, opened))
       \<and> (\<forall>opened.
            list_all2 (\<lambda>l f. layer_Open l name = Inr f) visibleLayers opened
            \<longrightarrow> Open fs_Stat layer_Open name layers
                  = (Inr \<lparr>f_layers = opened, f_name = name, f_dirReader = None\<rparr>, []))"
proof (intro conjI allI impI)
  fix N opened err
  assume h: "N < length visibleLayers
     \<and> list_all2 (\<lambda>l f. layer_Open l name = Inr f) (take N visibleLayers) opened
     \<and> layer_Open (visibleLayers ! N) name = Inl err"
  then have "visibleLayers = take N visibleLayers @ visibleLayers ! N # drop (Suc N) visibleLayers"
    by (simp add: id_take_nth_drop)
  then have "open_layers layer_Open name visibleLayers [] = (Inl err, [] @ opened)"
    using h open_layers_fail [of layer_Open name "take N visibleLayers" opened
        "visibleLayers ! N" err "drop (Suc N) visibleLayers" "[]"]
    by simp
  then show "Open fs_Stat layer_Open name layers = (Inl err, opened)"
    using assms by (simp add: Open_def)
next
  fix opened
  assume "list_all2 (\<lambda>l f. layer_Open l name = Inr f) visibleLayers opened"
  then have "open_layers layer_Open name visibleLayers []
      = (Inr \<lparr>f_layers = [] @ opened, f_name = name, f_dirReader = None\<rparr>, [])"
    by (rule open_layers_ok)
  then show "Open fs_Stat layer_Open name layers
      = (Inr \<lparr>f_layers = opened, f_name = name, f_dirReader = None\<rparr>, [])"
    using assms by (simp add: Open_def)
qed

lemma d_lookup: "lookup d_Stat ''open'' ''d'' [0, 1, 2] = Inr [0, 1, 2]"
  by code_simp

theorem Open_closes_on_failure_witness:
  "Open d_Stat d_Open ''d'' [0, 1, 2] = (Inl (PathError ''open'' ''d'' ErrPermission), [10, 11])
   \<and> Open d_Stat (\<lambda>l p. Inr (10 + l)) ''d'' [0, 1, 2]
       = (Inr \<lparr>f_layers = [10, 11, 12], f_name = ''d'', f_dirReader = None\<rparr>, [])"
proof -
  note th = Open_closes_on_failure [OF d_lookup]
  have "Open d_Stat d_Open ''d'' [0, 1, 2] = (Inl (PathError ''open'' ''d'' ErrPermission), [10, 11])"
    using th [of d_Open, THEN conjunct1, rule_format, of 2 "[10, 11]" "PathError ''open'' ''d'' ErrPermission"]
    by (simp add: d_Open_def)
  moreover have "Open d_Stat (\<lambda>l p. Inr (10 + l)) ''d'' [0, 1, 2]
       = (Inr \<lparr>f_layers = [10, 11, 12], f_name = ''d'', f_dirReader = None\<rparr>, [])"
    using th [of "\<lambda>l p. Inr (10 + l)", THEN conjunct2, rule_format, of "[10, 11, 12]"]
    by simp
  ultimately show ?thesis by simp
qed

lemma d_Open_ok:
  "Open d_Stat (\<lambda>l p. Inr (10 + l)) ''d'' [0, 1, 2]
     = (Inr \<lparr>f_layers = [10, 11, 12], f_name = ''d'', f_dirReader = None\<rparr>, [])"
  by code_simp

theorem Stat_clears_write_bits_witness:
  "layerInfo_Mode (layerInfo w_dir) = Mode w_dir AND NOT 146
   \<and> layerInfo_Mode (layerInfo w_dir) AND 146 = 0
   \<and> layerInfo_Mode (layerInfo w_dir) OR (Mode w_dir AND 146) = Mode w_dir"
proof -
  have st: "layerFile_Stat d_file_Stat \<lparr>f_layers = [10, 11, 12], f_name = ''d'', f_dirReader = None\<rparr>
      = Some (Inr (layerInfo w_dir))"
    by (simp add: layerFile_Stat_def d_file_Stat_def)
  from Stat_clears_write_bits [OF d_Open_ok _ st]
  show ?thesis
    by (auto simp: d_file_Stat_def)
qed

lemma scan_entries_collect_Cons:
  "scan_entries collect (entry # entries) dir acc dirents =
     (if entry_Name entry \<in> dir_masks dir then scan_entries collect entries dir acc dirents
      else if entry_Name entry = whiteoutOpaque then
        scan_entries collect entries (dir\<lparr>dir_files := take 1 (dir_files dir)\<rparr>) acc dirents
      else if HasPrefix (entry_Name entry) whiteoutPrefix then
        scan_entries collect entries
          (dir\<lparr>dir_names := dir_names dir @ [drop (length whiteoutPrefix) (entry_Name entry)]\<rparr>)
          acc dirents
      else scan_entries collect entries (dir\<lparr>dir_names := dir_names dir @ [entry_Name entry]\<rparr>)
             (acc @ [entry]) (dirents + 1))"
  by (simp add: Let_def collect_def)

lemma scan_entries_collect:
  "scan_entries collect entries dir acc dirents =
     (None,
      dir\<lparr>dir_files := (if opaque_in (dir_masks dir) entries then take 1 (dir_files dir)
                          else dir_files dir),
          dir_names := dir_names dir @ entry_names (dir_masks dir) entries\<rparr>,
      acc @ filter (emits (dir_masks dir)) entries,
      dirents + length (filter (emits (dir_masks dir)) entries))"
proof (induction entries arbitrary: dir acc dirents)
  case Nil
  then show ?case by (simp add: opaque_in_def)
next
  case (Cons e es)
  show ?case
    unfolding scan_entries_collect_Cons
    by (simp add: Cons emits_def opaque_in_def)
qed

lemma scan_entries_masks:
  "scan_entries f entries dir acc dirents = (r, dir', acc', dirents') \<Longrightarrow> dir_masks dir' = dir_masks dir"
  by (induction entries arbitrary: dir acc dirents) (auto simp: Let_def split: if_splits prod.splits option.splits)

lemma entry_names_append:
  "entry_names masks (p @ q) = entry_names masks p @ entry_names masks q"
  by (induction p) auto

lemma opaque_in_append:
  "opaque_in masks (p @ q) = (opaque_in masks p \<or> opaque_in masks q)"
  by (auto simp: opaque_in_def)

lemma opaque_in_Nil [simp]: "\<not> opaque_in masks []"
  by (simp add: opaque_in_def)

lemma advance_advance:
  "dir_files dir \<noteq> [] \<Longrightarrow> advance (advance dir p q) p' q' = advance dir (p @ p') q'"
  by (cases "dir_files dir")
     (auto simp: advance_def entry_names_append opaque_in_append)

lemma advance_simps [simp]:
  "dir_masks (advance dir p q) = dir_masks dir"
  "dir_names (advance dir p q) = dir_names dir @ entry_names (dir_masks dir) p"
  "dir_files dir = file # files \<Longrightarrow>
     dir_files (advance dir p q) =
       (if opaque_in (dir_masks dir) p then [file\<lparr>pending := q\<rparr>] else file\<lparr>pending := q\<rparr> # files)"
  by (auto simp: advance_def)

lemma scan_entries_advance:
  assumes "dir_files dir = file # files"
  shows "scan_entries collect entries (dir\<lparr>dir_files := file\<lparr>pending := q\<rparr> # files\<rparr>) acc dirents =
     (None, advance dir entries q, acc @ filter (emits (dir_masks dir)) entries,
      dirents + length (filter (emits (dir_masks dir)) entries))"
  using assms by (simp add: scan_entries_collect advance_def)

lemma scan_layer_zero:
  assumes "dir_files dir = file # files"
  shows "scan_layer 0 collect dir acc dirents =
     Some (Break, advance dir (pending file) [],
           acc @ filter (emits (dir_masks dir)) (pending file),
           dirents + length (filter (emits (dir_masks dir)) (pending file)))"
  apply (subst scan_layer.simps)
  using assms scan_entries_advance [OF assms, of "pending file" "[]" acc dirents]
  by (simp add: stream_ReadDir_def)

lemma stream_same_pending: "pending file = q \<Longrightarrow> file\<lparr>pending := q\<rparr> = file"
  by auto

lemma advance_Nil:
  "dir_files dir = file # files \<Longrightarrow> pending file = q \<Longrightarrow> advance dir [] q = dir"
  by (simp add: advance_def stream_same_pending)

lemma scan_layer_pos:
  assumes "dirents < n" and "dir_files dir = file # files"
  shows "\<exists>exit p q. pending file = p @ q
     \<and> scan_layer n collect dir acc dirents =
         Some (exit, advance dir p q, acc @ filter (emits (dir_masks dir)) p,
               dirents + length (filter (emits (dir_masks dir)) p))
     \<and> (exit = Return None \<and> dirents + length (filter (emits (dir_masks dir)) p) = n
        \<or> q = [] \<and> dirents + length (filter (emits (dir_masks dir)) p) < n
           \<and> (exit = Break \<and> (failure file = None \<or> failure file = Some EOF)
              \<or> (\<exists>e. exit = Return (Some e) \<and> failure file = Some e \<and> e \<noteq> EOF)))"
  using assms
proof (induction "length (pending file)" arbitrary: dir "file" files acc dirents rule: less_induct)
  case less
  let ?M = "dir_masks dir"
  let ?es = "pending file"
  have npos: "int n - int dirents > 0" "nat (int n - int dirents) = n - dirents" "n \<noteq> 0"
    using less.prems by auto
  show ?case
  proof (cases "?es = []")
    case True
    have adv: "advance dir [] [] = dir"
      using less.prems(2) True by (rule advance_Nil)
    have dir_eq: "dir\<lparr>dir_files := file # files\<rparr> = dir"
      using less.prems(2) by simp
    have rd: "stream_ReadDir (int n - int dirents) file =
        (([], Some (case failure file of None \<Rightarrow> EOF | Some err \<Rightarrow> err)), file)"
      using npos True by (simp add: stream_ReadDir_def)
    show ?thesis
    proof (cases "failure file = None \<or> failure file = Some EOF")
      case ok: True
      have "scan_layer n collect dir acc dirents = Some (Break, dir, acc, dirents)"
        apply (subst scan_layer.simps)
        using less.prems ok rd dir_eq by (auto simp: npos)
      then show ?thesis
        using True ok adv less.prems(1)
        by (intro exI [of _ Break] exI [of _ "[]"]) simp
    next
      case bad: False
      then obtain e where e: "failure file = Some e" "e \<noteq> EOF"
        by (cases "failure file") auto
      have "scan_layer n collect dir acc dirents = Some (Return (Some e), dir, acc, dirents)"
        apply (subst scan_layer.simps)
        using less.prems e rd dir_eq by (auto simp: npos)
      then show ?thesis
        using True e adv less.prems(1)
        by (intro exI [of _ "Return (Some e)"] exI [of _ "[]"]) simp
    qed
  next
    case False
    let ?r = "n - dirents"
    let ?b = "take ?r ?es"
    let ?es' = "drop ?r ?es"
    let ?file' = "file\<lparr>pending := ?es'\<rparr>"
    let ?j = "length (filter (emits ?M) ?b)"
    let ?dir1 = "advance dir ?b ?es'"
    have rd: "stream_ReadDir (int n - int dirents) file = ((?b, None), ?file')"
      using npos False by (simp add: stream_ReadDir_def)
    have se: "scan_entries collect ?b (dir\<lparr>dir_files := ?file' # files\<rparr>) acc dirents =
        (None, ?dir1, acc @ filter (emits ?M) ?b, dirents + ?j)"
      using less.prems(2) by (rule scan_entries_advance)
    have jle: "?j \<le> ?r"
      by (rule order_trans [OF length_filter_le]) simp
    have split: "?es = ?b @ ?es'" by simp
    show ?thesis
    proof (cases "dirents + ?j = n")
      case True
      have "scan_layer n collect dir acc dirents =
          Some (Return None, ?dir1, acc @ filter (emits ?M) ?b, dirents + ?j)"
        apply (subst scan_layer.simps)
        using less.prems(2) rd se True npos by simp
      then show ?thesis
        using split True
        by (intro exI [of _ "Return None"] exI [of _ ?b] exI [of _ ?es'] conjI) auto
    next
      case neq: False
      then have lt: "dirents + ?j < n" using jle less.prems(1) by linarith
      have files1: "dir_files ?dir1 = ?file' # (if opaque_in ?M ?b then [] else files)"
        using less.prems(2) by simp
      have shorter: "length (pending ?file') < length (pending file)"
        using False less.prems(1) by (cases "pending file") auto
      from less.hyps [OF shorter lt files1, of "acc @ filter (emits ?M) ?b"]
      obtain exit p q where
        pq: "pending ?file' = p @ q"
        and sl: "scan_layer n collect ?dir1 (acc @ filter (emits ?M) ?b) (dirents + ?j) =
          Some (exit, advance ?dir1 p q,
                (acc @ filter (emits ?M) ?b) @ filter (emits (dir_masks ?dir1)) p,
                (dirents + ?j) + length (filter (emits (dir_masks ?dir1)) p))"
        and ex: "exit = Return None \<and> (dirents + ?j) + length (filter (emits (dir_masks ?dir1)) p) = n
          \<or> q = [] \<and> (dirents + ?j) + length (filter (emits (dir_masks ?dir1)) p) < n
             \<and> (exit = Break \<and> (failure ?file' = None \<or> failure ?file' = Some EOF)
                \<or> (\<exists>e. exit = Return (Some e) \<and> failure ?file' = Some e \<and> e \<noteq> EOF))"
        by blast
      have step: "scan_layer n collect dir acc dirents =
          scan_layer n collect ?dir1 (acc @ filter (emits ?M) ?b) (dirents + ?j)"
        apply (subst scan_layer.simps)
        using less.prems(2) rd se neq npos by simp
      have adv: "advance ?dir1 p q = advance dir (?b @ p) q"
        using less.prems(2) by (simp add: advance_advance)
      have es: "?es = (?b @ p) @ q"
        using pq split by (metis DirStream.simps(5) DirStream.select_convs(1) append.assoc DirStream.surjective DirStream.update_convs(1))
      show ?thesis
        apply (rule exI [of _ exit])
        apply (rule exI [of _ "?b @ p"])
        apply (rule exI [of _ q])
        using es step sl ex adv by (auto simp: add.assoc)
    qed
  qed
qed

lemma listing_advance:
  assumes "dir_files dir = file # files" and "pending file = p @ q"
  shows "listing_of dir = filter (emits (dir_masks dir)) p @ listing_of (advance dir p q)"
  using assms
  by (auto simp: listing_of_def entry_names_append opaque_in_append Un_assoc)

lemma listing_apply_names:
  assumes "dir_files dir = file # files" and "pending file = []"
  shows "listing_of (apply_names dir) = listing_of dir"
  using assms by (simp add: listing_of_def apply_names_def)

lemma apply_names_simps [simp]:
  "dir_masks (apply_names dir) = dir_masks dir \<union> set (dir_names dir)"
  "dir_names (apply_names dir) = []"
  "dir_files (apply_names dir) = drop 1 (dir_files dir)"
  by (simp_all add: apply_names_def)

lemma listing_of_Nil [simp]: "dir_files dir = [] \<Longrightarrow> listing_of dir = []"
  by (simp add: listing_of_def)

lemma emitted_names_recorded:
  "entry_Name ` set (filter (emits masks) entries) \<subseteq> set (entry_names masks entries)"
  by (induction entries) (auto simp: emits_def)

lemma scan_loop_zero:
  "\<exists>dir'. scan_loop 0 collect dir acc dirents = Some (None, dir', acc @ listing_of dir)
     \<and> dir_files dir' = [] \<and> dir_masks dir \<subseteq> dir_masks dir'
     \<and> entry_Name ` set (listing_of dir) \<union> set (dir_names dir) \<subseteq> dir_masks dir' \<union> set (dir_names dir')"
proof (induction "length (dir_files dir)" arbitrary: dir acc dirents rule: less_induct)
  case less
  show ?case
  proof (cases "dir_files dir")
    case Nil
    then have "scan_loop 0 collect dir acc dirents = Some (None, dir, acc)"
      by (subst scan_loop.simps) simp
    then show ?thesis using Nil by simp
  next
    case (Cons fl files)
    let ?M = "dir_masks dir"
    let ?out = "filter (emits ?M) (pending fl)"
    let ?dir1 = "advance dir (pending fl) []"
    let ?dir2 = "apply_names ?dir1"
    have sl: "scan_layer 0 collect dir acc dirents =
        Some (Break, ?dir1, acc @ ?out, dirents + length ?out)"
      using Cons by (rule scan_layer_zero)
    have step: "scan_loop 0 collect dir acc dirents =
        scan_loop 0 collect ?dir2 (acc @ ?out) (dirents + length ?out)"
      by (subst scan_loop.simps) (simp add: Cons sl)
    have f1: "dir_files ?dir1 = (if opaque_in ?M (pending fl) then [fl\<lparr>pending := []\<rparr>]
        else fl\<lparr>pending := []\<rparr> # files)"
      using Cons by simp
    have shorter: "length (dir_files ?dir2) < length (dir_files dir)"
      using Cons f1 by simp
    from less.hyps [OF shorter, of "acc @ ?out" "dirents + length ?out"]
    obtain dir' where
      r: "scan_loop 0 collect ?dir2 (acc @ ?out) (dirents + length ?out)
           = Some (None, dir', (acc @ ?out) @ listing_of ?dir2)"
      and fin: "dir_files dir' = []" and mono: "dir_masks ?dir2 \<subseteq> dir_masks dir'"
      and cov: "entry_Name ` set (listing_of ?dir2) \<union> set (dir_names ?dir2)
                  \<subseteq> dir_masks dir' \<union> set (dir_names dir')"
      by blast
    have l1: "listing_of dir = ?out @ listing_of ?dir1"
      using listing_advance [OF Cons, of "pending fl" "[]"] by simp
    have l2: "listing_of ?dir2 = listing_of ?dir1"
      using listing_apply_names [of ?dir1 "fl\<lparr>pending := []\<rparr>"
          "if opaque_in ?M (pending fl) then [] else files"] f1
      by simp
    have names_out: "entry_Name ` set ?out \<subseteq> set (entry_names ?M (pending fl))"
      by (rule emitted_names_recorded)
    have "entry_Name ` set ?out \<subseteq> dir_masks ?dir2" "set (dir_names dir) \<subseteq> dir_masks ?dir2"
      using names_out by auto
    then have cov': "entry_Name ` set (listing_of dir) \<union> set (dir_names dir)
        \<subseteq> dir_masks dir' \<union> set (dir_names dir')"
      using cov mono l1 l2 by auto
    show ?thesis
      apply (rule exI [of _ dir'])
      using step r fin mono l1 l2 cov' by auto
  qed
qed

lemma scan_post_return:
  assumes "dir_files dir = fl # files" and "pending fl = p @ q"
    and "err = None \<and> dirents + length (filter (emits (dir_masks dir)) p) = n
       \<or> (\<exists>e. err = Some e \<and> e \<noteq> EOF \<and> failure fl = Some e \<and> q = []
             \<and> dirents + length (filter (emits (dir_masks dir)) p) < n)"
  shows "scan_post n dirents dir err (advance dir p q) (filter (emits (dir_masks dir)) p)"
proof -
  let ?M = "dir_masks dir"
  have f1: "dir_files (advance dir p q) = (if opaque_in ?M p then [fl\<lparr>pending := q\<rparr>]
      else fl\<lparr>pending := q\<rparr> # files)"
    using assms(1) by simp
  have l1: "listing_of dir = filter (emits ?M) p @ listing_of (advance dir p q)"
    using assms(1,2) by (rule listing_advance)
  have fail1: "failure ` set (dir_files (advance dir p q)) \<subseteq> failure ` set (dir_files dir)"
    using f1 assms(1) by auto
  have names1: "entry_Name ` set (filter (emits ?M) p) \<union> set (dir_names dir)
      \<subseteq> dir_masks (advance dir p q) \<union> set (dir_names (advance dir p q))"
    using emitted_names_recorded [of ?M p] by auto
  have fin: "err = None \<and> dirents + length (filter (emits ?M) p) = n
     \<or> err = Some EOF \<and> dirents + length (filter (emits ?M) p) < n \<and> dir_files (advance dir p q) = []
     \<or> (\<exists>e fl fls. err = Some e \<and> e \<noteq> EOF \<and> dirents + length (filter (emits ?M) p) < n
           \<and> dir_files (advance dir p q) = fl # fls \<and> failure fl = Some e \<and> pending fl = [])"
    using assms(3)
  proof
    assume "err = None \<and> dirents + length (filter (emits ?M) p) = n"
    then show ?thesis by simp
  next
    assume "\<exists>e. err = Some e \<and> e \<noteq> EOF \<and> failure fl = Some e \<and> q = []
             \<and> dirents + length (filter (emits ?M) p) < n"
    then obtain e where e: "err = Some e" "e \<noteq> EOF" "failure fl = Some e" "q = []"
      "dirents + length (filter (emits ?M) p) < n" by blast
    have "dir_files (advance dir p q) = fl\<lparr>pending := []\<rparr> # (if opaque_in ?M p then [] else files)"
      using f1 e(4) by simp
    moreover have "failure (fl\<lparr>pending := []\<rparr>) = Some e" "pending (fl\<lparr>pending := []\<rparr>) = []"
      using e(3) by simp_all
    ultimately show ?thesis using e(1,2,5) by blast
  qed
  show ?thesis
    unfolding scan_post_def using l1 fail1 names1 fin by (intro conjI) simp_all
qed

lemma scan_post_step:
  assumes "dir_files dir = fl # files" and "pending fl = p"
    and "scan_post n (dirents + length (filter (emits (dir_masks dir)) p))
           (apply_names (advance dir p [])) err dir' out"
  shows "scan_post n dirents dir err dir' (filter (emits (dir_masks dir)) p @ out)"
proof -
  let ?M = "dir_masks dir"
  let ?out = "filter (emits ?M) p"
  let ?dir1 = "advance dir p []"
  let ?dir2 = "apply_names ?dir1"
  have f1: "dir_files ?dir1 = (if opaque_in ?M p then [fl\<lparr>pending := []\<rparr>]
      else fl\<lparr>pending := []\<rparr> # files)"
    using assms(1) by simp
  have l1: "listing_of dir = ?out @ listing_of ?dir1"
    using listing_advance [OF assms(1), of p "[]"] assms(2) by simp
  have l2: "listing_of ?dir2 = listing_of ?dir1"
    using listing_apply_names [of ?dir1 "fl\<lparr>pending := []\<rparr>"
        "if opaque_in ?M p then [] else files"] f1
    by simp
  from assms(3) have
    l: "listing_of ?dir2 = out @ listing_of dir'"
    and mono: "dir_masks ?dir2 \<subseteq> dir_masks dir'"
    and fail: "failure ` set (dir_files dir') \<subseteq> failure ` set (dir_files ?dir2)"
    and cov: "entry_Name ` set out \<union> set (dir_names ?dir2)
               \<subseteq> dir_masks dir' \<union> set (dir_names dir')"
    and fin: "err = None \<and> (dirents + length ?out) + length out = n
      \<or> err = Some EOF \<and> (dirents + length ?out) + length out < n \<and> dir_files dir' = []
      \<or> (\<exists>e fl fls. err = Some e \<and> e \<noteq> EOF \<and> (dirents + length ?out) + length out < n
            \<and> dir_files dir' = fl # fls \<and> failure fl = Some e \<and> pending fl = [])"
    unfolding scan_post_def by blast+
  have fail2: "failure ` set (dir_files ?dir2) \<subseteq> failure ` set (dir_files dir)"
    using f1 assms(1) by auto
  have "entry_Name ` set ?out \<subseteq> dir_masks ?dir2" "set (dir_names dir) \<subseteq> dir_masks ?dir2"
    using emitted_names_recorded [of ?M p] by auto
  then have cov': "entry_Name ` set (?out @ out) \<union> set (dir_names dir)
      \<subseteq> dir_masks dir' \<union> set (dir_names dir')"
    using cov mono by auto
  have mono': "dir_masks dir \<subseteq> dir_masks dir'"
    using mono by auto
  have fail': "failure ` set (dir_files dir') \<subseteq> failure ` set (dir_files dir)"
    using fail fail2 by (rule order_trans)
  have ll: "listing_of dir = (?out @ out) @ listing_of dir'"
    using l l1 l2 by simp
  have fin': "err = None \<and> dirents + length (?out @ out) = n
      \<or> err = Some EOF \<and> dirents + length (?out @ out) < n \<and> dir_files dir' = []
      \<or> (\<exists>e fl fls. err = Some e \<and> e \<noteq> EOF \<and> dirents + length (?out @ out) < n
            \<and> dir_files dir' = fl # fls \<and> failure fl = Some e \<and> pending fl = [])"
    using fin by (simp add: add.assoc)
  show ?thesis
    unfolding scan_post_def using ll mono' fail' cov' fin' by blast
qed

lemma scan_loop_pos:
  assumes "dirents < n"
  shows "\<exists>err dir' out. scan_loop n collect dir acc dirents = Some (err, dir', acc @ out)
     \<and> scan_post n dirents dir err dir' out"
  using assms
proof (induction "length (dir_files dir)" arbitrary: dir acc dirents rule: less_induct)
  case less
  show ?case
  proof (cases "dir_files dir")
    case Nil
    then have "scan_loop n collect dir acc dirents = Some (Some EOF, dir, acc @ [])"
      using less.prems by (subst scan_loop.simps) simp
    moreover have "scan_post n dirents dir (Some EOF) dir []"
      using Nil less.prems by (simp add: scan_post_def)
    ultimately show ?thesis by blast
  next
    case (Cons fl files)
    let ?M = "dir_masks dir"
    from scan_layer_pos [OF less.prems Cons, of acc]
    obtain exit p q where pq: "pending fl = p @ q"
      and sl: "scan_layer n collect dir acc dirents =
         Some (exit, advance dir p q, acc @ filter (emits ?M) p,
               dirents + length (filter (emits ?M) p))"
      and ex: "exit = Return None \<and> dirents + length (filter (emits ?M) p) = n
        \<or> q = [] \<and> dirents + length (filter (emits ?M) p) < n
           \<and> (exit = Break \<and> (failure fl = None \<or> failure fl = Some EOF)
              \<or> (\<exists>e. exit = Return (Some e) \<and> failure fl = Some e \<and> e \<noteq> EOF))"
      by blast
    let ?out = "filter (emits ?M) p"
    let ?dir1 = "advance dir p q"
    have ret: "scan_loop n collect dir acc dirents = Some (err, ?dir1, acc @ ?out)"
      if "exit = Return err" for err
      by (subst scan_loop.simps) (simp add: Cons sl that)
    from ex consider
      (full) "exit = Return None" "dirents + length ?out = n"
      | (failed) e where "exit = Return (Some e)" "failure fl = Some e" "e \<noteq> EOF" "q = []"
          "dirents + length ?out < n"
      | (drained) "exit = Break" "q = []" "dirents + length ?out < n"
      by blast
    then show ?thesis
    proof cases
      case full
      have "scan_post n dirents dir None ?dir1 ?out"
        using Cons pq full(2) by (intro scan_post_return) auto
      then show ?thesis using ret [OF full(1)] by blast
    next
      case failed
      have "scan_post n dirents dir (Some e) ?dir1 ?out"
        using Cons pq failed by (intro scan_post_return) auto
      then show ?thesis using ret [OF failed(1)] by blast
    next
      case drained
      let ?dir2 = "apply_names (advance dir p [])"
      have step: "scan_loop n collect dir acc dirents =
          scan_loop n collect ?dir2 (acc @ ?out) (dirents + length ?out)"
        by (subst scan_loop.simps) (simp add: Cons sl drained(1,2))
      have shorter: "length (dir_files ?dir2) < length (dir_files dir)"
        using Cons by simp
      from less.hyps [OF shorter drained(3), of "acc @ ?out"]
      obtain err dir' out where
        r: "scan_loop n collect ?dir2 (acc @ ?out) (dirents + length ?out)
              = Some (err, dir', (acc @ ?out) @ out)"
        and post: "scan_post n (dirents + length ?out) ?dir2 err dir' out"
        by blast
      have "scan_post n dirents dir err dir' (?out @ out)"
        using Cons _ post by (rule scan_post_step) (use pq drained(2) in simp)
      then show ?thesis using step r by auto
    qed
  qed
qed

lemma cursor_after [simp]: "cursor a (f\<lparr>f_dirReader := Some dir\<rparr>) = dir"
  by (simp add: cursor_def)

lemma ReadDir_nonpos:
  assumes "n \<le> 0"
  shows "\<exists>dir'. ReadDir a n f
            = Some ((listing_of (cursor a f), None), f\<lparr>f_dirReader := Some dir'\<rparr>)
         \<and> dir_files dir' = [] \<and> dir_masks (cursor a f) \<subseteq> dir_masks dir'"
proof -
  from scan_loop_zero [of "cursor a f" "[]" 0]
  obtain dir' where "scan_loop 0 collect (cursor a f) [] 0 = Some (None, dir', [] @ listing_of (cursor a f))"
    and "dir_files dir' = []" and "dir_masks (cursor a f) \<subseteq> dir_masks dir'"
    by blast
  moreover have "nat (if n < 0 then 0 else n) = 0"
    using assms by simp
  ultimately show ?thesis
    by (auto simp: ReadDir_def scan_def Let_def)
qed

lemma ReadDir_pos:
  assumes "0 < n"
  shows "\<exists>err dir' out. ReadDir a n f = Some ((out, err), f\<lparr>f_dirReader := Some dir'\<rparr>)
         \<and> scan_post (nat n) 0 (cursor a f) err dir' out"
proof -
  have n: "nat (if n < 0 then 0 else n) = nat n" "0 < nat n"
    using assms by simp_all
  from scan_loop_pos [OF n(2), of "cursor a f" "[]"]
  obtain err dir' out where "scan_loop (nat n) collect (cursor a f) [] 0 = Some (err, dir', [] @ out)"
    and "scan_post (nat n) 0 (cursor a f) err dir' out"
    by blast
  then show ?thesis
    using n(1) by (auto simp: ReadDir_def scan_def Let_def)
qed

lemma ReadDir_total:
  "\<exists>out err dir'. ReadDir a n f = Some ((out, err), f\<lparr>f_dirReader := Some dir'\<rparr>)
     \<and> listing_of (cursor a f) = out @ listing_of dir'
     \<and> dir_masks (cursor a f) \<subseteq> dir_masks dir'
     \<and> failure ` set (dir_files dir') \<subseteq> failure ` set (dir_files (cursor a f))"
proof (cases "0 < n")
  case True
  from ReadDir_pos [OF True, of a f]
  obtain err dir' out where r: "ReadDir a n f = Some ((out, err), f\<lparr>f_dirReader := Some dir'\<rparr>)"
    and post: "scan_post (nat n) 0 (cursor a f) err dir' out"
    by blast
  from post have "listing_of (cursor a f) = out @ listing_of dir'"
    and "dir_masks (cursor a f) \<subseteq> dir_masks dir'"
    and "failure ` set (dir_files dir') \<subseteq> failure ` set (dir_files (cursor a f))"
    by (simp_all add: scan_post_def)
  with r show ?thesis
    apply (intro exI [of _ out] exI [of _ err])
    apply (rule exI [of _ dir'])
    by simp
next
  case False
  then have "n \<le> 0" by simp
  from ReadDir_nonpos [OF this, of a f]
  obtain dir' where "ReadDir a n f
            = Some ((listing_of (cursor a f), None), f\<lparr>f_dirReader := Some dir'\<rparr>)"
    and "dir_files dir' = []" and "dir_masks (cursor a f) \<subseteq> dir_masks dir'"
    by blast
  then show ?thesis
    apply (intro exI [of _ "listing_of (cursor a f)"] exI [of _ None])
    apply (rule exI [of _ dir'])
    by simp
qed

lemma ReadDirs_total:
  "\<exists>agg f'. ReadDirs a ns f = Some (agg, f')
     \<and> listing_of (cursor a f) = agg @ listing_of (cursor a f')
     \<and> dir_masks (cursor a f) \<subseteq> dir_masks (cursor a f')"
proof (induction ns arbitrary: f)
  case Nil
  then show ?case by simp
next
  case (Cons n ns)
  from ReadDir_total [of a n f]
  obtain out err dir' where r: "ReadDir a n f = Some ((out, err), f\<lparr>f_dirReader := Some dir'\<rparr>)"
    and l: "listing_of (cursor a f) = out @ listing_of dir'"
    and m: "dir_masks (cursor a f) \<subseteq> dir_masks dir'"
    by blast
  from Cons [of "f\<lparr>f_dirReader := Some dir'\<rparr>"]
  obtain agg f' where rs: "ReadDirs a ns (f\<lparr>f_dirReader := Some dir'\<rparr>) = Some (agg, f')"
    and l': "listing_of dir' = agg @ listing_of (cursor a f')"
    and m': "dir_masks dir' \<subseteq> dir_masks (cursor a f')"
    by auto
  show ?case
    apply (rule exI [of _ "out @ agg"])
    apply (rule exI [of _ f'])
    using r rs l l' m m' by auto
qed

lemma listing_not_masked:
  "e \<in> set (listing masks names files) \<Longrightarrow> emits masks e"
proof (induction files arbitrary: masks names)
  case Nil
  then show ?case by simp
next
  case (Cons fl files)
  from Cons.prems consider
    "e \<in> set (filter (emits masks) (pending fl))"
    | "e \<in> set (listing (masks \<union> set (names @ entry_names masks (pending fl))) []
          (if opaque_in masks (pending fl) then [] else files))"
    by auto
  then show ?case
  proof cases
    case 1
    then show ?thesis by simp
  next
    case 2
    then have "emits (masks \<union> set (names @ entry_names masks (pending fl))) e"
      using Cons.IH by (auto split: if_splits)
    then show ?thesis by (simp add: emits_def)
  qed
qed

lemma scan_loop_done:
  "dir_files dir = [] \<Longrightarrow>
     scan_loop n collect dir acc dirents = Some (if dirents < n then Some EOF else None, dir, acc)"
  by (subst scan_loop.simps) simp

lemma ReadDir_done:
  assumes "f_dirReader f = Some dir" and "dir_files dir = []"
  shows "ReadDir a m f = Some (([], if 0 < m then Some EOF else None), f)"
proof -
  have "cursor a f = dir" using assms(1) by (simp add: cursor_def)
  moreover have "f\<lparr>f_dirReader := Some dir\<rparr> = f" using assms(1) by simp
  ultimately show ?thesis
    using assms(2) by (simp add: ReadDir_def scan_def scan_loop_done)
qed

lemma ReadDir_EOF:
  assumes "ReadDir a m f = Some ((out, Some EOF), g)"
  shows "0 < m \<and> length out < nat m"
proof (cases "0 < m")
  case True
  from ReadDir_pos [OF True, of a f] assms
  obtain dir' where "scan_post (nat m) 0 (cursor a f) (Some EOF) dir' out"
    by auto
  then show ?thesis using True by (simp add: scan_post_def)
next
  case False
  then have "m \<le> 0" by simp
  from ReadDir_nonpos [OF this, of a f] assms show ?thesis by auto
qed

lemma w_handle_listing:
  "listing_of (cursor Some w_handle) = [w_entry ''file-1'', w_entry ''file-0'']"
  by code_simp

text \<open>
  Claim C10. A \<^verbatim>\<open>ReadDir\<close> call with \<open>n \<le> 0\<close> returns, with a nil error, every entry of
  the merged view of what is left (\<open>listing_of\<close> the cursor) and leaves no layer to
  read: whatever a call with another count would have returned is a prefix of its
  result, and every later call returns no entry. \<^verbatim>\<open>io.EOF\<close> comes only from a call
  with \<open>m > 0\<close> that returns fewer than \<open>m\<close> entries.
\<close>

theorem ReadDir_nonpositive_drains:
  assumes "n \<le> 0"
  shows "\<exists>f'. ReadDir a n f = Some ((listing_of (cursor a f), None), f')
           \<and> dir_files (cursor a f') = []
           \<and> (\<forall>k. \<exists>out err g. ReadDir a k f = Some ((out, err), g)
                  \<and> prefix out (listing_of (cursor a f)))
           \<and> (\<forall>m. ReadDir a m f' = Some (([], if 0 < m then Some EOF else None), f'))
           \<and> (\<forall>m out g. ReadDir a m f = Some ((out, Some EOF), g)
                  \<longrightarrow> 0 < m \<and> length out < nat m)"
proof -
  from ReadDir_nonpos [OF assms, of a f]
  obtain dir' where r: "ReadDir a n f
        = Some ((listing_of (cursor a f), None), f\<lparr>f_dirReader := Some dir'\<rparr>)"
    and fin: "dir_files dir' = []"
    by blast
  let ?f' = "f\<lparr>f_dirReader := Some dir'\<rparr>"
  have 1: "dir_files (cursor a ?f') = []" using fin by simp
  have 2: "\<exists>out err g. ReadDir a k f = Some ((out, err), g) \<and> prefix out (listing_of (cursor a f))" for k
    using ReadDir_total [of a k f] by (metis prefixI)
  have 3: "ReadDir a m ?f' = Some (([], if 0 < m then Some EOF else None), ?f')" for m
    by (rule ReadDir_done [of _ dir']) (simp_all add: fin)
  have 4: "0 < m \<and> length out < nat m" if "ReadDir a m f = Some ((out, Some EOF), g)" for m out g
    using that by (rule ReadDir_EOF)
  show ?thesis
    apply (rule exI [of _ ?f'])
    using r 1 2 3 4 by blast
qed

theorem ReadDir_nonpositive_drains_witness:
  "\<exists>f'. ReadDir Some (- 1) w_handle
            = Some (([w_entry ''file-1'', w_entry ''file-0''], None), f')
           \<and> dir_files (cursor Some f') = []
           \<and> (\<forall>k. \<exists>out err g. ReadDir Some k w_handle = Some ((out, err), g)
                  \<and> prefix out [w_entry ''file-1'', w_entry ''file-0''])
           \<and> (\<forall>m. ReadDir Some m f' = Some (([], if 0 < m then Some EOF else None), f'))"
proof -
  have "(- 1 :: int) \<le> 0" by simp
  from ReadDir_nonpositive_drains [OF this, of Some w_handle]
  show ?thesis unfolding w_handle_listing by blast
qed

lemma scan_post_clean:
  assumes "scan_post n 0 dir err dir' out" and "\<forall>d \<in> set (dir_files dir). failure d = None"
  shows "out = take n (listing_of dir) \<and> listing_of dir' = drop n (listing_of dir)
         \<and> (\<forall>d \<in> set (dir_files dir'). failure d = None)
         \<and> (err = None \<and> length out = n \<or> err = Some EOF \<and> length out < n)"
proof -
  from assms(1) have l: "listing_of dir = out @ listing_of dir'"
    and fl: "failure ` set (dir_files dir') \<subseteq> failure ` set (dir_files dir)"
    and fin: "err = None \<and> 0 + length out = n
       \<or> err = Some EOF \<and> 0 + length out < n \<and> dir_files dir' = []
       \<or> (\<exists>e fl fls. err = Some e \<and> e \<noteq> EOF \<and> 0 + length out < n
             \<and> dir_files dir' = fl # fls \<and> failure fl = Some e \<and> pending fl = [])"
    by (simp_all add: scan_post_def)
  have clean': "\<forall>d \<in> set (dir_files dir'). failure d = None"
    using fl assms(2) by auto
  from fin clean' consider "err = None" "length out = n"
    | "err = Some EOF" "length out < n" "dir_files dir' = []"
    by auto
  then show ?thesis
  proof cases
    case 1
    then show ?thesis using l clean' by simp
  next
    case 2
    then have "listing_of dir' = []" by simp
    then show ?thesis using l 2 clean' by simp
  qed
qed

lemma ReadDirs_take:
  assumes "\<forall>n \<in> set ns. 0 < n" and "\<forall>d \<in> set (dir_files (cursor a f)). failure d = None"
  shows "\<exists>f'. ReadDirs a ns f = Some (take (nat (sum_list ns)) (listing_of (cursor a f)), f')"
  using assms
proof (induction ns arbitrary: f)
  case Nil
  then show ?case by simp
next
  case (Cons n ns)
  have pos: "0 < n" and rest: "\<forall>n \<in> set ns. 0 < n"
    using Cons.prems(1) by simp_all
  from ReadDir_pos [OF pos, of a f]
  obtain err dir' out where r: "ReadDir a n f = Some ((out, err), f\<lparr>f_dirReader := Some dir'\<rparr>)"
    and post: "scan_post (nat n) 0 (cursor a f) err dir' out"
    by blast
  let ?L = "listing_of (cursor a f)"
  from scan_post_clean [OF post Cons.prems(2)]
  have out: "out = take (nat n) ?L" and l': "listing_of dir' = drop (nat n) ?L"
    and clean': "\<forall>d \<in> set (dir_files dir'). failure d = None"
    by simp_all
  let ?f1 = "f\<lparr>f_dirReader := Some dir'\<rparr>"
  from Cons.IH [OF rest, of ?f1] clean'
  obtain f' where rs: "ReadDirs a ns ?f1 = Some (take (nat (sum_list ns)) (listing_of dir'), f')"
    by auto
  have "0 \<le> sum_list ns"
    using rest by (induction ns) auto
  then have "nat (sum_list (n # ns)) = nat n + nat (sum_list ns)"
    using pos by (simp add: nat_add_distrib)
  then have "take (nat (sum_list (n # ns))) ?L = out @ take (nat (sum_list ns)) (listing_of dir')"
    using out l' by (simp add: take_add)
  then show ?case
    using r rs by simp
qed

lemma listing_distinct:
  assumes "\<forall>d \<in> set files. distinct (map entry_Name (pending d))"
  shows "distinct (map entry_Name (listing masks names files))"
  using assms
proof (induction files arbitrary: masks names)
  case Nil
  then show ?case by simp
next
  case (Cons fl files)
  let ?M' = "masks \<union> set (names @ entry_names masks (pending fl))"
  let ?rest = "listing ?M' [] (if opaque_in masks (pending fl) then [] else files)"
  have d1: "distinct (map entry_Name (filter (emits masks) (pending fl)))"
    using Cons.prems by (simp add: distinct_map_filter)
  have d2: "distinct (map entry_Name ?rest)"
    using Cons by simp
  have "entry_Name ` set (filter (emits masks) (pending fl)) \<inter> entry_Name ` set ?rest = {}"
  proof (rule ccontr)
    assume "entry_Name ` set (filter (emits masks) (pending fl)) \<inter> entry_Name ` set ?rest \<noteq> {}"
    then obtain x where x1: "x \<in> entry_Name ` set (filter (emits masks) (pending fl))"
      and x2: "x \<in> entry_Name ` set ?rest"
      by blast
    from x2 obtain e where e: "e \<in> set ?rest" and xe: "x = entry_Name e"
      by (rule imageE)
    from e have "emits ?M' e" by (rule listing_not_masked)
    then have "x \<notin> set (entry_names masks (pending fl))"
      using xe by (simp add: emits_def)
    then show False
      using x1 emitted_names_recorded [of masks "pending fl"] by blast
  qed
  then show ?case
    using d1 d2 by simp
qed

text \<open>
  Claim C5. On a handle whose directories end without an error, any sequence of
  \<^verbatim>\<open>ReadDir\<close> calls with positive counts returns, put together, the first
  \<open>sum_list ns\<close> entries of what one \<^verbatim>\<open>ReadDir\<close> call without a bound returns on the
  same handle: the same entries in the same order, none twice and none left out, and all
  of them once the counts add up to their number. When no layer lists a name twice, no
  name is returned twice.
\<close>

theorem ReadDir_resumable:
  assumes "\<forall>n \<in> set ns. 0 < n"
    and "\<forall>d \<in> set (dir_files (cursor a f)). failure d = None"
  shows "\<exists>full f1 agg f2.
           ReadDir a 0 f = Some ((full, None), f1)
         \<and> ReadDirs a ns f = Some (agg, f2)
         \<and> agg = take (nat (sum_list ns)) full
         \<and> (length full \<le> nat (sum_list ns) \<longrightarrow> agg = full)
         \<and> ((\<forall>d \<in> set (dir_files (cursor a f)). distinct (map entry_Name (pending d)))
              \<longrightarrow> distinct (map entry_Name full))"
proof -
  from ReadDir_nonpos [of 0 a f]
  obtain dir' where full: "ReadDir a 0 f
      = Some ((listing_of (cursor a f), None), f\<lparr>f_dirReader := Some dir'\<rparr>)"
    by auto
  from ReadDirs_take [OF assms]
  obtain f2 where agg: "ReadDirs a ns f
      = Some (take (nat (sum_list ns)) (listing_of (cursor a f)), f2)"
    by blast
  have "distinct (map entry_Name (listing_of (cursor a f)))"
    if "\<forall>d \<in> set (dir_files (cursor a f)). distinct (map entry_Name (pending d))"
    unfolding listing_of_def using that by (rule listing_distinct)
  then show ?thesis
    using full agg by auto
qed

lemma w_handle_clean: "\<forall>d \<in> set (dir_files (cursor Some w_handle)). failure d = None"
  by (simp add: cursor_def new_dirReader_def w_handle_def w_stream_def map_filter_simps)

lemma w_handle_distinct:
  "\<forall>d \<in> set (dir_files (cursor Some w_handle)). distinct (map entry_Name (pending d))"
  by (simp add: cursor_def new_dirReader_def w_handle_def w_stream_def w_entry_def map_filter_simps)

theorem ReadDir_resumable_witness:
  "\<exists>full f1 agg f2.
      ReadDir Some 0 w_handle = Some ((full, None), f1)
    \<and> ReadDirs Some [1, 1, 1] w_handle = Some (agg, f2)
    \<and> agg = take 3 full \<and> distinct (map entry_Name full)"
proof -
  have "\<forall>n \<in> set [1, 1, 1 :: int]. 0 < n" by simp
  from ReadDir_resumable [OF this w_handle_clean] w_handle_distinct
  show ?thesis by auto
qed

lemma scan_layer_frame:
  assumes "n = 0 \<or> dirents < n" and "dir_files dir = fl # files"
  shows "\<exists>exit p q. pending fl = p @ q
     \<and> scan_layer n collect dir acc dirents =
         Some (exit, advance dir p q, acc @ filter (emits (dir_masks dir)) p,
               dirents + length (filter (emits (dir_masks dir)) p))
     \<and> (exit = Break \<longrightarrow> q = [])"
proof (cases "n = 0")
  case True
  have "pending fl = pending fl @ []" by simp
  then show ?thesis
    using scan_layer_zero [OF assms(2), of acc dirents] True by blast
next
  case False
  then have "dirents < n" using assms(1) by simp
  from scan_layer_pos [OF this assms(2), of acc] show ?thesis
    by blast
qed

lemma ReadDirs_not_masked:
  "\<exists>agg f'. ReadDirs a ns h = Some (agg, f')
     \<and> dir_masks (cursor a h) \<subseteq> dir_masks (cursor a f')
     \<and> (\<forall>e \<in> set agg. entry_Name e \<notin> dir_masks (cursor a h))"
proof -
  from ReadDirs_total [of a ns h]
  obtain agg f' where r: "ReadDirs a ns h = Some (agg, f')"
    and l: "listing_of (cursor a h) = agg @ listing_of (cursor a f')"
    and m: "dir_masks (cursor a h) \<subseteq> dir_masks (cursor a f')"
    by blast
  have "entry_Name e \<notin> dir_masks (cursor a h)" if "e \<in> set agg" for e
  proof -
    from that l have "e \<in> set (listing_of (cursor a h))" by simp
    then have "emits (dir_masks (cursor a h)) e"
      unfolding listing_of_def by (rule listing_not_masked)
    then show ?thesis by (simp add: emits_def)
  qed
  then show ?thesis using r m by blast
qed

lemma w_handle_files:
  "dir_files (cursor Some w_handle)
     = w_stream [''file-1'', ''.wh.d''] # [w_stream [''file-0'', ''d''], w_stream [''d'']]"
  by (simp add: cursor_def new_dirReader_def w_handle_def map_filter_simps)

lemma HasPrefix_append [simp]: "HasPrefix (pre @ s) pre"
  by (simp add: HasPrefix_def)

lemma HasPrefix_split: "HasPrefix s pre \<Longrightarrow> s = pre @ drop (length pre) s"
  by (metis HasPrefix_def append_take_drop_id)

lemma whiteout_recorded:
  assumes "w \<in> set entries" and "entry_Name w = whiteoutPrefix @ x"
    and "whiteoutPrefix @ x \<notin> masks" and "whiteoutPrefix @ x \<noteq> whiteoutOpaque"
  shows "x \<in> set (entry_names masks entries)"
  using assms by (induction entries) auto

lemma entry_names_origin:
  assumes "v \<in> set (entry_names masks entries)"
  shows "\<exists>e \<in> set entries. entry_Name e \<noteq> whiteoutOpaque
           \<and> (entry_Name e = whiteoutPrefix @ v
               \<or> entry_Name e = v \<and> \<not> HasPrefix v whiteoutPrefix)"
  using assms
proof (induction entries)
  case Nil
  then show ?case by simp
next
  case (Cons e es)
  then show ?case
    using HasPrefix_split [of "entry_Name e" whiteoutPrefix]
    by (auto split: if_splits)
qed

lemma listing_whiteout:
  assumes "w \<in> set (pending L)" and "entry_Name w = whiteoutPrefix @ x"
    and "whiteoutPrefix @ x \<notin> masks"
    and "hi \<noteq> [] \<longrightarrow> whiteoutPrefix @ x \<notin> set names"
    and "\<forall>d \<in> set hi. \<forall>e \<in> set (pending d). entry_Name e \<noteq> whiteoutPrefix @ whiteoutPrefix @ x"
  shows "\<exists>tail. listing masks names (hi @ L # lo) = listing masks names (hi @ [L]) @ tail
           \<and> x \<notin> entry_Name ` set tail"
  using assms(3-5)
proof (induction hi arbitrary: masks names)
  case Nil
  let ?M1 = "masks \<union> set (names @ entry_names masks (pending L))"
  show ?case
  proof (cases "opaque_in masks (pending L)")
    case True
    then show ?thesis by simp
  next
    case False
    have "whiteoutPrefix @ x \<noteq> whiteoutOpaque"
    proof
      assume eq: "whiteoutPrefix @ x = whiteoutOpaque"
      then have "whiteoutOpaque \<in> entry_Name ` set (pending L)"
        using assms(1,2) by (metis imageI)
      then show False
        using False Nil.prems(1) eq by (simp add: opaque_in_def)
    qed
    then have "x \<in> ?M1"
      using whiteout_recorded [OF assms(1,2) Nil.prems(1)] by simp
    moreover have "entry_Name e \<notin> ?M1" if "e \<in> set (listing ?M1 [] lo)" for e
      using listing_not_masked [OF that] by (simp add: emits_def)
    ultimately have "x \<notin> entry_Name ` set (listing ?M1 [] lo)"
      by blast
    then show ?thesis using False by simp
  qed
next
  case (Cons h hi)
  let ?M1 = "masks \<union> set (names @ entry_names masks (pending h))"
  show ?case
  proof (cases "opaque_in masks (pending h)")
    case True
    then show ?thesis by simp
  next
    case False
    have "whiteoutPrefix @ x \<notin> set (entry_names masks (pending h))"
    proof
      assume "whiteoutPrefix @ x \<in> set (entry_names masks (pending h))"
      from entry_names_origin [OF this] Cons.prems(3) show False
        by auto
    qed
    then have 1: "whiteoutPrefix @ x \<notin> ?M1"
      using Cons.prems(1,2) by simp
    have 2: "hi \<noteq> [] \<longrightarrow> whiteoutPrefix @ x \<notin> set []" by simp
    have 3: "\<forall>d \<in> set hi. \<forall>e \<in> set (pending d).
        entry_Name e \<noteq> whiteoutPrefix @ whiteoutPrefix @ x"
      using Cons.prems(3) by simp
    from Cons.IH [OF 1 2 3] show ?thesis
      using False by simp
  qed
qed

lemma listing_opaque:
  assumes "w \<in> set (pending L)" and "entry_Name w = whiteoutOpaque"
    and "whiteoutOpaque \<notin> masks"
    and "hi \<noteq> [] \<longrightarrow> whiteoutOpaque \<notin> set names"
    and "\<forall>d \<in> set hi. \<forall>e \<in> set (pending d). entry_Name e \<noteq> whiteoutPrefix @ whiteoutOpaque"
  shows "listing masks names (hi @ L # lo) = listing masks names (hi @ [L])"
  using assms(3-5)
proof (induction hi arbitrary: masks names)
  case Nil
  have "opaque_in masks (pending L)"
    using assms(1,2) Nil.prems(1) by (force simp: opaque_in_def)
  then show ?case by simp
next
  case (Cons h hi)
  let ?M1 = "masks \<union> set (names @ entry_names masks (pending h))"
  show ?case
  proof (cases "opaque_in masks (pending h)")
    case True
    then show ?thesis by simp
  next
    case False
    have "whiteoutOpaque \<notin> set (entry_names masks (pending h))"
    proof
      assume "whiteoutOpaque \<in> set (entry_names masks (pending h))"
      from entry_names_origin [OF this] Cons.prems(3) show False
        by auto
    qed
    then have 1: "whiteoutOpaque \<notin> ?M1"
      using Cons.prems(1,2) by simp
    have 2: "hi \<noteq> [] \<longrightarrow> whiteoutOpaque \<notin> set []" by simp
    have 3: "\<forall>d \<in> set hi. \<forall>e \<in> set (pending d).
        entry_Name e \<noteq> whiteoutPrefix @ whiteoutOpaque"
      using Cons.prems(3) by simp
    from Cons.IH [OF 1 2 3] show ?thesis
      using False by simp
  qed
qed

lemma fresh_listing:
  assumes "f_dirReader f = None" and "List.map_filter a (f_layers f) = files"
  shows "listing_of (cursor a f) = listing {} [] files"
  using assms by (simp add: cursor_def new_dirReader_def listing_of_def)

lemma ReadDir_all:
  "\<exists>f'. ReadDir a 0 f = Some ((listing_of (cursor a f), None), f')"
  using ReadDir_nonpos [of 0 a f] by auto

lemma ReadDirs_prefix:
  "\<exists>agg f'. ReadDirs a ns f = Some (agg, f') \<and> prefix agg (listing_of (cursor a f))"
  using ReadDirs_total [of a ns f] by (metis prefixI)

text \<open>
  Claim C2, as amended. Let layer \<open>L\<close> of a directory hold an entry \<open>.wh.x\<close>, and let no
  layer above it hold an entry \<open>.wh..wh.x\<close> (which would mask the whiteout itself).
  Then the listing is what the layers down to \<open>L\<close> give by themselves, followed by the
  entries of the layers below, none of which is named \<open>x\<close>; no entry whose name begins
  with \<open>.wh.\<close> is returned; and every sequence of \<^verbatim>\<open>ReadDir\<close> calls returns a prefix of
  that listing.
\<close>

theorem whiteout_masks_lower_layers:
  assumes "f_dirReader f = None" and "List.map_filter a (f_layers f) = hi @ L # lo"
    and "f_dirReader g = None" and "List.map_filter a (f_layers g) = hi @ [L]"
    and "w \<in> set (pending L)" and "entry_Name w = whiteoutPrefix @ x"
    and "\<forall>d \<in> set hi. \<forall>e \<in> set (pending d). entry_Name e \<noteq> whiteoutPrefix @ whiteoutPrefix @ x"
  shows "\<exists>upper tail f' g'.
           ReadDir a 0 g = Some ((upper, None), g')
         \<and> ReadDir a 0 f = Some ((upper @ tail, None), f')
         \<and> x \<notin> entry_Name ` set tail
         \<and> (\<forall>e \<in> set (upper @ tail). \<not> HasPrefix (entry_Name e) whiteoutPrefix)
         \<and> (\<forall>ns. \<exists>agg f''. ReadDirs a ns f = Some (agg, f'') \<and> prefix agg (upper @ tail))"
proof -
  have lf: "listing_of (cursor a f) = listing {} [] (hi @ L # lo)"
    using assms(1,2) by (rule fresh_listing)
  have lg: "listing_of (cursor a g) = listing {} [] (hi @ [L])"
    using assms(3,4) by (rule fresh_listing)
  from listing_whiteout [OF assms(5,6) _ _ assms(7), of "{}" "[]" lo]
  obtain tail where t: "listing {} [] (hi @ L # lo) = listing {} [] (hi @ [L]) @ tail"
    and x: "x \<notin> entry_Name ` set tail"
    by auto
  let ?upper = "listing {} [] (hi @ [L])"
  from ReadDir_all [of a g] lg obtain g' where rg: "ReadDir a 0 g = Some ((?upper, None), g')"
    by auto
  from ReadDir_all [of a f] lf t obtain f' where rf: "ReadDir a 0 f = Some ((?upper @ tail, None), f')"
    by auto
  have np: "\<not> HasPrefix (entry_Name e) whiteoutPrefix" if "e \<in> set (?upper @ tail)" for e
  proof -
    from that t have "e \<in> set (listing {} [] (hi @ L # lo))" by simp
    from listing_not_masked [OF this] show ?thesis by (simp add: emits_def)
  qed
  have pre: "\<exists>agg f''. ReadDirs a ns f = Some (agg, f'') \<and> prefix agg (?upper @ tail)" for ns
    using ReadDirs_prefix [of a ns f] lf t by simp
  show ?thesis
    apply (rule exI [of _ ?upper])
    apply (rule exI [of _ tail])
    apply (rule exI [of _ f'])
    apply (rule exI [of _ g'])
    using rg rf x np pre by blast
qed

theorem whiteout_masks_lower_layers_witness:
  "\<exists>upper tail f' g'.
      ReadDir Some 0 wh_top = Some ((upper, None), g')
    \<and> ReadDir Some 0 wh_handle = Some ((upper @ tail, None), f')
    \<and> ''d'' \<notin> entry_Name ` set tail
    \<and> (\<forall>e \<in> set (upper @ tail). \<not> HasPrefix (entry_Name e) whiteoutPrefix)
    \<and> (\<forall>ns. \<exists>agg f''. ReadDirs Some ns wh_handle = Some (agg, f'') \<and> prefix agg (upper @ tail))"
proof -
  have 1: "f_dirReader wh_handle = None" by (simp add: wh_handle_def)
  have 2: "List.map_filter Some (f_layers wh_handle)
      = [w_stream [''file-1'']] @ w_stream [''.wh.d'', ''file-0''] # [w_stream [''d'', ''e'']]"
    by (simp add: wh_handle_def map_filter_simps)
  have 3: "f_dirReader wh_top = None" by (simp add: wh_top_def)
  have 4: "List.map_filter Some (f_layers wh_top)
      = [w_stream [''file-1'']] @ [w_stream [''.wh.d'', ''file-0'']]"
    by (simp add: wh_top_def map_filter_simps)
  have 5: "w_entry ''.wh.d'' \<in> set (pending (w_stream [''.wh.d'', ''file-0'']))"
    by (simp add: w_stream_def)
  have 6: "entry_Name (w_entry ''.wh.d'') = whiteoutPrefix @ ''d''"
    by (simp add: w_entry_def whiteoutPrefix_def)
  have 7: "\<forall>d \<in> set [w_stream [''file-1'']]. \<forall>e \<in> set (pending d).
      entry_Name e \<noteq> whiteoutPrefix @ whiteoutPrefix @ ''d''"
    by (simp add: w_stream_def w_entry_def whiteoutPrefix_def)
  from whiteout_masks_lower_layers [OF 1 2 3 4 5 6 7] show ?thesis .
qed

text \<open>
  Claim C2 as stated fails: the second layer holds \<open>.wh.x\<close>, yet the listing returns the
  \<open>x\<close> of the third layer, because the first layer's \<open>.wh..wh.x\<close> masks the whiteout
  itself. The two upper layers alone list nothing.
\<close>

theorem whiteout_counterexample:
  "map_option fst (ReadDir Some 0 c2_handle) = Some ([w_entry ''x''], None)
   \<and> map_option fst (ReadDir Some 0 c2_top) = Some ([], None)"
  by code_simp

lemma scan_entries_opaque:
  assumes "w \<in> set entries" and "entry_Name w = whiteoutOpaque"
    and "whiteoutOpaque \<notin> dir_masks dir"
  shows "dir_files (fst (snd (scan_entries collect entries dir acc dirents)))
           = take 1 (dir_files dir)"
proof -
  have "opaque_in (dir_masks dir) entries"
    using assms by (force simp: opaque_in_def)
  then show ?thesis by (simp add: scan_entries_collect)
qed

text \<open>
  Claim C3, as amended. When the entries read from the current layer hold the marker
  \<open>.wh..wh..opq\<close> and the mask set does not hold that name, the list of layers is cut
  to the current layer. So if layer \<open>L\<close> of a directory holds the marker, and no layer
  above it holds an entry \<open>.wh..wh..wh..opq\<close> (which would mask the marker itself),
  the listing is exactly what the layers down to \<open>L\<close> give by themselves: the layers
  below add nothing, the entries of \<open>L\<close> and of the layers above stay, and the marker is
  not among them. Every sequence of \<^verbatim>\<open>ReadDir\<close> calls returns a prefix of that
  listing.
\<close>

theorem opaque_hides_lower_layers:
  assumes "f_dirReader f = None" and "List.map_filter a (f_layers f) = hi @ L # lo"
    and "f_dirReader g = None" and "List.map_filter a (f_layers g) = hi @ [L]"
    and "w \<in> set (pending L)" and "entry_Name w = whiteoutOpaque"
    and "\<forall>d \<in> set hi. \<forall>e \<in> set (pending d). entry_Name e \<noteq> whiteoutPrefix @ whiteoutOpaque"
  shows "(\<forall>dir acc dirents. whiteoutOpaque \<notin> dir_masks dir \<longrightarrow>
            dir_files (fst (snd (scan_entries collect (pending L) dir acc dirents)))
              = take 1 (dir_files dir))
       \<and> (\<exists>full f' g'.
             ReadDir a 0 g = Some ((full, None), g')
           \<and> ReadDir a 0 f = Some ((full, None), f')
           \<and> (\<forall>e \<in> set full. entry_Name e \<noteq> whiteoutOpaque)
           \<and> (\<forall>ns. \<exists>agg f''. ReadDirs a ns f = Some (agg, f'') \<and> prefix agg full))"
proof
  show "\<forall>dir acc dirents. whiteoutOpaque \<notin> dir_masks dir \<longrightarrow>
            dir_files (fst (snd (scan_entries collect (pending L) dir acc dirents)))
              = take 1 (dir_files dir)"
    using scan_entries_opaque [OF assms(5,6)] by blast
next
  have lf: "listing_of (cursor a f) = listing {} [] (hi @ L # lo)"
    using assms(1,2) by (rule fresh_listing)
  have lg: "listing_of (cursor a g) = listing {} [] (hi @ [L])"
    using assms(3,4) by (rule fresh_listing)
  have t: "listing {} [] (hi @ L # lo) = listing {} [] (hi @ [L])"
    using listing_opaque [OF assms(5,6) _ _ assms(7), of "{}" "[]" lo] by simp
  let ?full = "listing {} [] (hi @ [L])"
  from ReadDir_all [of a g] lg obtain g' where rg: "ReadDir a 0 g = Some ((?full, None), g')"
    by auto
  from ReadDir_all [of a f] lf t obtain f' where rf: "ReadDir a 0 f = Some ((?full, None), f')"
    by auto
  have np: "entry_Name e \<noteq> whiteoutOpaque" if "e \<in> set ?full" for e
    using listing_not_masked [OF that] by (simp add: emits_def)
  have pre: "\<exists>agg f''. ReadDirs a ns f = Some (agg, f'') \<and> prefix agg ?full" for ns
    using ReadDirs_prefix [of a ns f] lf t by simp
  show "\<exists>full f' g'.
             ReadDir a 0 g = Some ((full, None), g')
           \<and> ReadDir a 0 f = Some ((full, None), f')
           \<and> (\<forall>e \<in> set full. entry_Name e \<noteq> whiteoutOpaque)
           \<and> (\<forall>ns. \<exists>agg f''. ReadDirs a ns f = Some (agg, f'') \<and> prefix agg full)"
    apply (rule exI [of _ ?full])
    apply (rule exI [of _ f'])
    apply (rule exI [of _ g'])
    using rg rf np pre by blast
qed

theorem opaque_hides_lower_layers_witness:
  "\<exists>full f' g'.
      ReadDir Some 0 op_top = Some ((full, None), g')
    \<and> ReadDir Some 0 op_handle = Some ((full, None), f')
    \<and> (\<forall>e \<in> set full. entry_Name e \<noteq> whiteoutOpaque)
    \<and> (\<forall>ns. \<exists>agg f''. ReadDirs Some ns op_handle = Some (agg, f'') \<and> prefix agg full)"
proof -
  have 1: "f_dirReader op_handle = None" by (simp add: op_handle_def)
  have 2: "List.map_filter Some (f_layers op_handle)
      = [w_stream [''a'']] @ w_stream [''.wh..wh..opq'', ''b''] # [w_stream [''c'']]"
    by (simp add: op_handle_def map_filter_simps)
  have 3: "f_dirReader op_top = None" by (simp add: op_top_def)
  have 4: "List.map_filter Some (f_layers op_top)
      = [w_stream [''a'']] @ [w_stream [''.wh..wh..opq'', ''b'']]"
    by (simp add: op_top_def map_filter_simps)
  have 5: "w_entry ''.wh..wh..opq'' \<in> set (pending (w_stream [''.wh..wh..opq'', ''b'']))"
    by (simp add: w_stream_def)
  have 6: "entry_Name (w_entry ''.wh..wh..opq'') = whiteoutOpaque"
    by (simp add: w_entry_def whiteoutOpaque_def)
  have 7: "\<forall>d \<in> set [w_stream [''a'']]. \<forall>e \<in> set (pending d).
      entry_Name e \<noteq> whiteoutPrefix @ whiteoutOpaque"
    by (simp add: w_stream_def w_entry_def whiteoutPrefix_def)
  from opaque_hides_lower_layers [OF 1 2 3 4 5 6 7, THEN conjunct2] show ?thesis .
qed

text \<open>
  Claim C3 as stated fails: the second layer holds \<open>.wh..wh..opq\<close>, yet the listing
  returns the \<open>b\<close> of the third layer after the \<open>a\<close> of the second, because the first
  layer's \<open>.wh..wh..wh..opq\<close> masks the marker itself.
\<close>

theorem opaque_counterexample:
  "map_option fst (ReadDir Some 0 c3_handle) = Some ([w_entry ''a'', w_entry ''b''], None)
   \<and> map_option fst (ReadDir Some 0 c3_top) = Some ([w_entry ''a''], None)"
  by code_simp

lemma lookup_layers_level:
  "i \<le> length vis \<Longrightarrow>
     lookup_layers fs_Stat pth w1 wA vis i
       = lookup_level fs_Stat pth w1 wA (take i vis) (drop i vis)"
proof (induction fs_Stat pth w1 wA vis i rule: lookup_layers.induct)
  case (1 fs_Stat pth w1 wA vis i)
  show ?case
  proof (cases "i < length vis")
    case False
    then show ?thesis
      using 1(3) by (subst lookup_layers.simps) simp
  next
    case True
    then have d: "drop i vis = vis ! i # drop (Suc i) vis"
      by (simp add: Cons_nth_drop_Suc)
    have t: "take (Suc i) vis = take i vis @ [vis ! i]"
      using True by (simp add: take_Suc_conv_app_nth)
    have e: "(take i vis = []) = (i = 0)"
      using True by auto
    have t1: "take (Suc 0) vis = [vis ! 0]" if "i = 0"
      using True that by (cases vis) auto
    let ?vis1 = "take i vis @ drop (i + 1) vis"
    have v1: "take i ?vis1 = take i vis" "drop i ?vis1 = drop (Suc i) vis" "i \<le> length ?vis1"
      using True by simp_all
    show ?thesis
    proof (cases "fs_Stat (vis ! i) pth")
      case (Inl err)
      show ?thesis
      proof (cases "errors_Is err ErrNotExist")
        case ne: True
        have "lookup_layers fs_Stat pth w1 wA vis i = lookup_layers fs_Stat pth w1 wA ?vis1 i"
          using True Inl ne by (subst lookup_layers.simps) simp
        also have "\<dots> = lookup_level fs_Stat pth w1 wA (take i ?vis1) (drop i ?vis1)"
          using 1(1) [OF True Inl _ v1(3)] ne by simp
        finally show ?thesis
          using v1 d Inl ne by simp
      next
        case False
        then show ?thesis
          using True Inl d by (subst lookup_layers.simps) simp
      qed
    next
      case (Inr s)
      show ?thesis
      proof (cases "IsDir s")
        case False
        then show ?thesis
          using True Inr d e t1 by (subst lookup_layers.simps) auto
      next
        case dir: True
        show ?thesis
        proof (cases "hasOneOf fs_Stat (vis ! i) [w1, wA]")
          case (Inl err)
          then show ?thesis
            using True Inr dir d by (subst lookup_layers.simps) simp
        next
          case ex: (Inr exist)
          show ?thesis
          proof (cases exist)
            case True
            then show ?thesis
              using \<open>i < length vis\<close> Inr dir ex d t by (subst lookup_layers.simps) simp
          next
            case False
            have "lookup_layers fs_Stat pth w1 wA vis i = lookup_layers fs_Stat pth w1 wA vis (i + 1)"
              using True Inr dir ex False by (subst lookup_layers.simps) simp
            also have "\<dots> = lookup_level fs_Stat pth w1 wA (take (i + 1) vis) (drop (i + 1) vis)"
              using 1(2) [OF True Inr _ ex False] dir True by simp
            finally show ?thesis
              using d t Inr dir ex False by simp
          qed
        qed
      qed
    qed
  qed
qed

lemma lookup_level_kept:
  "lookup_level fs_Stat pth w1 wA kept rest = Inr vis' \<Longrightarrow>
     \<exists>r. subseq r rest \<and> (vis' = kept @ r)"
proof (induction rest arbitrary: kept)
  case Nil
  then show ?case by simp
next
  case (Cons l rest)
  show ?case
  proof (cases "fs_Stat l pth")
    case (Inl err)
    with Cons.prems have "lookup_level fs_Stat pth w1 wA kept rest = Inr vis'"
      by (simp split: if_splits)
    from Cons.IH [OF this] show ?thesis by auto
  next
    case (Inr s)
    show ?thesis
    proof (cases "IsDir s")
      case False
      with Cons.prems Inr have "vis' = (if kept = [] then [l] else kept)" by simp
      then have "vis' = kept @ [l] \<or> vis' = kept @ []" by auto
      moreover have "subseq [l] (l # rest)" "subseq [] (l # rest)" by simp_all
      ultimately show ?thesis by blast
    next
      case True
      with Cons.prems Inr obtain exist where ex: "hasOneOf fs_Stat l [w1, wA] = Inr exist"
        by (auto split: sum.splits)
      show ?thesis
      proof (cases exist)
        case True
        with Cons.prems Inr \<open>IsDir s\<close> ex have "vis' = kept @ [l]" by simp
        moreover have "subseq [l] (l # rest)" by simp
        ultimately show ?thesis by blast
      next
        case False
        with Cons.prems Inr \<open>IsDir s\<close> ex
        have "lookup_level fs_Stat pth w1 wA (kept @ [l]) rest = Inr vis'" by simp
        from Cons.IH [OF this] obtain r where "subseq r rest" "vis' = (kept @ [l]) @ r"
          by blast
        then have "subseq (l # r) (l # rest)" "vis' = kept @ (l # r)" by simp_all
        then show ?thesis by blast
      qed
    qed
  qed
qed

lemma lookup_level_nondir:
  assumes "fs_Stat L pth = Inr s" and "\<not> IsDir s"
    and "lookup_level fs_Stat pth w1 wA kept (xs @ L # ys) = Inr vis'"
  shows "(if kept = [] \<and> (\<forall>x \<in> set xs. not_exist fs_Stat x pth) then vis' = [L]
          else subseq vis' (kept @ xs))"
  using assms(3)
proof (induction xs arbitrary: kept)
  case Nil
  then show ?case using assms(1,2) by auto
next
  case (Cons x xs)
  show ?case
  proof (cases "fs_Stat x pth")
    case (Inl err)
    with Cons.prems have ne: "errors_Is err ErrNotExist"
      and r: "lookup_level fs_Stat pth w1 wA kept (xs @ L # ys) = Inr vis'"
      by (simp_all split: if_splits)
    have "not_exist fs_Stat x pth" using Inl ne by (simp add: not_exist_def)
    moreover have "subseq vis' (kept @ x # xs)" if "subseq vis' (kept @ xs)"
      using that by (metis subseq_append' list_emb_Cons list_emb_trans subseq_order.order_refl)
    ultimately show ?thesis
      using Cons.IH [OF r] by (auto split: if_splits)
  next
    case (Inr s')
    then have nx: "\<not> not_exist fs_Stat x pth" by (simp add: not_exist_def)
    from lookup_level_kept [OF Cons.prems] obtain r where "subseq r ((x # xs) @ L # ys)"
      and v: "vis' = kept @ r" by blast
    show ?thesis
    proof (cases "IsDir s'")
      case False
      with Cons.prems Inr have "vis' = (if kept = [] then [x] else kept)" by simp
      then have "subseq vis' (kept @ x # xs)"
        by (auto intro: list_emb_append2)
      then show ?thesis using nx by simp
    next
      case True
      with Cons.prems Inr obtain exist where ex: "hasOneOf fs_Stat x [w1, wA] = Inr exist"
        by (auto split: sum.splits)
      show ?thesis
      proof (cases exist)
        case True
        with Cons.prems Inr \<open>IsDir s'\<close> ex have "vis' = kept @ [x]" by simp
        then have "subseq vis' (kept @ x # xs)"
          by (simp add: subseq_append')
        then show ?thesis using nx by simp
      next
        case False
        with Cons.prems Inr \<open>IsDir s'\<close> ex
        have "lookup_level fs_Stat pth w1 wA (kept @ [x]) (xs @ L # ys) = Inr vis'" by simp
        from Cons.IH [OF this] have "subseq vis' ((kept @ [x]) @ xs)"
          by (simp split: if_splits)
        then show ?thesis using nx by simp
      qed
    qed
  qed
qed

lemma lookup_level_track:
  assumes "\<not> not_exist fs_Stat L pth"
    and "lookup_level fs_Stat pth w1 wA kept (xs @ L # ys) = Inr vis'"
  shows "(\<exists>xs' ys'. vis' = kept @ xs' @ L # ys' \<and> subseq xs' xs \<and> subseq ys' ys)
         \<or> subseq vis' (kept @ xs)"
  using assms(2)
proof (induction xs arbitrary: kept)
  case Nil
  show ?case
  proof (cases "fs_Stat L pth")
    case (Inl err)
    with Nil assms(1) show ?thesis
      by (simp add: not_exist_def split: if_splits)
  next
    case (Inr s)
    show ?thesis
    proof (cases "IsDir s")
      case False
      with Nil Inr have "vis' = (if kept = [] then [L] else kept)" by simp
      then show ?thesis by (cases "kept = []") auto
    next
      case True
      with Nil Inr obtain exist where ex: "hasOneOf fs_Stat L [w1, wA] = Inr exist"
        by (auto split: sum.splits)
      show ?thesis
      proof (cases exist)
        case True
        with Nil Inr \<open>IsDir s\<close> ex have "vis' = kept @ [] @ L # []" by simp
        then show ?thesis by blast
      next
        case False
        with Nil Inr \<open>IsDir s\<close> ex
        have "lookup_level fs_Stat pth w1 wA (kept @ [L]) ys = Inr vis'" by simp
        from lookup_level_kept [OF this] obtain r where "subseq r ys" "vis' = (kept @ [L]) @ r"
          by blast
        then have "vis' = kept @ [] @ L # r \<and> subseq [] ([] :: 'a list) \<and> subseq r ys" by simp
        then show ?thesis by blast
      qed
    qed
  qed
next
  case (Cons x xs)
  have widen: "subseq v (kept @ x # xs)" if "subseq v (kept @ xs)" for v
    using that by (metis subseq_append' list_emb_Cons list_emb_trans subseq_order.order_refl)
  show ?case
  proof (cases "fs_Stat x pth")
    case (Inl err)
    with Cons.prems have r: "lookup_level fs_Stat pth w1 wA kept (xs @ L # ys) = Inr vis'"
      by (simp_all split: if_splits)
    from Cons.IH [OF r] show ?thesis
    proof
      assume "\<exists>xs' ys'. vis' = kept @ xs' @ L # ys' \<and> subseq xs' xs \<and> subseq ys' ys"
      then obtain xs' ys' where "vis' = kept @ xs' @ L # ys'" "subseq xs' xs" "subseq ys' ys"
        by blast
      then have "vis' = kept @ xs' @ L # ys' \<and> subseq xs' (x # xs) \<and> subseq ys' ys"
        by (simp add: list_emb_Cons)
      then show ?thesis by blast
    next
      assume "subseq vis' (kept @ xs)"
      then show ?thesis using widen by blast
    qed
  next
    case (Inr s')
    show ?thesis
    proof (cases "IsDir s'")
      case False
      with Cons.prems Inr have "vis' = (if kept = [] then [x] else kept)" by simp
      then have "subseq vis' (kept @ x # xs)"
        by (auto intro: list_emb_append2)
      then show ?thesis by blast
    next
      case True
      with Cons.prems Inr obtain exist where ex: "hasOneOf fs_Stat x [w1, wA] = Inr exist"
        by (auto split: sum.splits)
      show ?thesis
      proof (cases exist)
        case True
        with Cons.prems Inr \<open>IsDir s'\<close> ex have "vis' = kept @ [x]" by simp
        then have "subseq vis' (kept @ x # xs)"
          by (simp add: subseq_append')
        then show ?thesis by blast
      next
        case False
        with Cons.prems Inr \<open>IsDir s'\<close> ex
        have "lookup_level fs_Stat pth w1 wA (kept @ [x]) (xs @ L # ys) = Inr vis'" by simp
        from Cons.IH [OF this] show ?thesis
        proof
          assume "\<exists>xs' ys'. vis' = (kept @ [x]) @ xs' @ L # ys' \<and> subseq xs' xs \<and> subseq ys' ys"
          then obtain xs' ys' where "vis' = (kept @ [x]) @ xs' @ L # ys'" "subseq xs' xs"
            "subseq ys' ys" by blast
          then have "vis' = kept @ (x # xs') @ L # ys' \<and> subseq (x # xs') (x # xs) \<and> subseq ys' ys"
            by simp
          then show ?thesis by blast
        next
          assume "subseq vis' ((kept @ [x]) @ xs)"
          then show ?thesis by simp
        qed
      qed
    qed
  qed
qed

lemma IndexByte_None: "IndexByte s c = None \<Longrightarrow> c \<notin> set s"
  by (induction s) (auto split: if_splits)

lemma IndexByte_Some:
  "IndexByte s c = Some i \<Longrightarrow> i < length s \<and> s ! i = c \<and> (\<forall>j<i. s ! j \<noteq> c)"
proof (induction s arbitrary: i)
  case Nil
  then show ?case by simp
next
  case (Cons b s)
  show ?case
  proof (cases "b = c")
    case True
    with Cons.prems show ?thesis by simp
  next
    case False
    with Cons.prems obtain i' where i': "IndexByte s c = Some i'" "i = Suc i'"
      by auto
    from Cons.IH [OF i'(1)] have "i' < length s" "s ! i' = c" "\<forall>j<i'. s ! j \<noteq> c"
      by simp_all
    then show ?thesis
      using False i'(2) by (auto simp: nth_Cons split: nat.splits)
  qed
qed

lemma next_slash:
  assumes "walk < length path"
  defines "walk1 \<equiv> (case IndexByte (drop walk path) CHR ''/'' of
                       None \<Rightarrow> length path | Some i \<Rightarrow> walk + i)"
  shows "walk \<le> walk1" and "walk1 \<le> length path"
    and "walk1 < length path \<Longrightarrow> path ! walk1 = CHR ''/''"
    and "\<And>k. walk \<le> k \<Longrightarrow> k \<le> length path \<Longrightarrow> k = length path \<or> path ! k = CHR ''/''
           \<Longrightarrow> walk1 \<le> k"
proof -
  show "walk \<le> walk1"
    using assms(1) by (simp add: walk1_def split: option.splits)
  show le: "walk1 \<le> length path"
    using IndexByte_Some [of "drop walk path" "CHR ''/''"] assms(1)
    by (auto simp: walk1_def split: option.splits)
  show "path ! walk1 = CHR ''/''" if "walk1 < length path"
    using IndexByte_Some [of "drop walk path" "CHR ''/''"] assms(1) that
    by (auto simp: walk1_def split: option.splits)
  show "walk1 \<le> k" if k: "walk \<le> k" "k \<le> length path" "k = length path \<or> path ! k = CHR ''/''" for k
  proof (cases "k = length path")
    case True
    then show ?thesis using le by simp
  next
    case False
    then have sl: "path ! k = CHR ''/''" and lt: "k < length path" using k by auto
    then have at: "drop walk path ! (k - walk) = CHR ''/''" "k - walk < length (drop walk path)"
      using k(1) by simp_all
    show ?thesis
    proof (cases "IndexByte (drop walk path) CHR ''/''")
      case None
      from IndexByte_None [OF this] at show ?thesis
        by (metis nth_mem)
    next
      case (Some i)
      from IndexByte_Some [OF this] at have "\<not> k - walk < i" by blast
      then show ?thesis using Some k(1) by (simp add: walk1_def)
    qed
  qed
qed

lemma split_slash_trailing:
  "s \<noteq> [] \<Longrightarrow> last s = CHR ''/'' \<Longrightarrow> [] \<in> set (split_slash cur s)"
proof (induction s arbitrary: cur)
  case Nil
  then show ?case by simp
next
  case (Cons c s)
  then show ?case by (cases s) auto
qed

lemma ValidPath_elems_shape:
  assumes "ValidPath_elems name"
  shows "name \<noteq> []" and "last name \<noteq> CHR ''/''"
proof -
  have all: "\<forall>e \<in> set (split_slash [] name). e \<noteq> []"
    using assms by (simp add: ValidPath_elems_iff)
  show ne: "name \<noteq> []"
    using all by auto
  show "last name \<noteq> CHR ''/''"
    using all split_slash_trailing [OF ne, of "[]"] by blast
qed

lemma subseq_singleton: "subseq v [L] \<Longrightarrow> v = [] \<or> v = [L]"
  by (cases v) (auto simp: subseq_Cons2_iff list_emb_Nil2 split: if_splits)

lemma lookup_walk_shadow:
  assumes "fs_Stat L (take k path) = Inr s" and "\<not> IsDir s"
    and "k \<le> length path" and "k = length path \<or> path ! k = CHR ''/''"
    and "\<forall>j<k. path ! j = CHR ''/'' \<longrightarrow> \<not> not_exist fs_Stat L (take j path)"
    and "path \<noteq> []" and "last path \<noteq> CHR ''/''"
    and "lookup_walk fs_Stat path walk cands = Inr vis"
    and "(walk \<le> k \<and> (\<exists>ch cl. cands = ch @ L # cl \<and> subseq ch hi))
       \<or> (cands = [L] \<or> subseq cands hi)"
    and "walk = 0 \<or> length path < walk \<or> path ! (walk - 1) = CHR ''/''"
  shows "vis = [L] \<or> subseq vis hi"
  using assms
proof (induction fs_Stat path walk cands rule: lookup_walk.induct)
  case (1 fs_Stat path walk cands)
  note a = "1.prems"(1-7)
  note res = "1.prems"(8) and inv = "1.prems"(9) and wpos = "1.prems"(10)
  show ?case
  proof (cases "walk < length path \<and> 0 < length cands")
    case False
    then have "lookup_walk fs_Stat path walk cands = Inr cands"
      by (subst lookup_walk.simps) auto
    then have v: "vis = cands"
      using res by simp
    from inv show ?thesis
    proof
      assume b: "walk \<le> k \<and> (\<exists>ch cl. cands = ch @ L # cl \<and> subseq ch hi)"
      then have "cands \<noteq> []" by auto
      with False have "length path \<le> walk" by simp
      moreover from b have "walk \<le> k" by simp
      ultimately have w: "walk = length path" using a(3) by linarith
      then have "walk \<noteq> 0" using a(6) by simp
      with wpos w have "path ! (length path - 1) = CHR ''/''" by simp
      then have "last path = CHR ''/''"
        using a(6) by (simp add: last_conv_nth)
      with a(7) show ?thesis by simp
    next
      assume "cands = [L] \<or> subseq cands hi"
      then show ?thesis using v by simp
    qed
  next
    case True
    define walk1 where "walk1 = (case IndexByte (drop walk path) CHR ''/'' of
        None \<Rightarrow> length path | Some i \<Rightarrow> walk + i)"
    define marks where "marks = whiteout (take walk1 path)"
    from True have wl: "walk < length path" by simp
    note ns = next_slash [OF wl, folded walk1_def]
    from res True obtain cands1 where
      lvl: "lookup_layers fs_Stat (take walk1 path) (fst marks) (snd marks) cands 0 = Inr cands1"
      and rec: "lookup_walk fs_Stat path (walk1 + 1) cands1 = Inr vis"
      by (subst (asm) lookup_walk.simps)
         (auto simp: Let_def walk1_def marks_def split: sum.splits)
    have lv: "lookup_level fs_Stat (take walk1 path) (fst marks) (snd marks) [] cands = Inr cands1"
      using lvl lookup_layers_level [of 0 cands fs_Stat "take walk1 path" "fst marks" "snd marks"]
      by simp
    have wpos': "walk1 + 1 = 0 \<or> length path < walk1 + 1 \<or> path ! (walk1 + 1 - 1) = CHR ''/''"
      using ns(2,3) by (cases "walk1 < length path") auto
    have inv': "(walk1 + 1 \<le> k \<and> (\<exists>ch cl. cands1 = ch @ L # cl \<and> subseq ch hi))
       \<or> (cands1 = [L] \<or> subseq cands1 hi)"
      using inv
    proof
      assume "cands = [L] \<or> subseq cands hi"
      moreover from lookup_level_kept [OF lv] have sub: "subseq cands1 cands" by auto
      ultimately show ?thesis
        using subseq_singleton [of cands1 L] by (auto intro: subseq_order.order_trans)
    next
      assume b: "walk \<le> k \<and> (\<exists>ch cl. cands = ch @ L # cl \<and> subseq ch hi)"
      then obtain ch cl where c: "cands = ch @ L # cl" and ch: "subseq ch hi" by blast
      from b have w1k: "walk1 \<le> k" using ns(4) a(3,4) by blast
      show ?thesis
      proof (cases "walk1 = k")
        case True
        from lookup_level_nondir [of fs_Stat L "take walk1 path" s "fst marks" "snd marks" "[]" ch cl cands1]
          a(1,2) lv c True
        have "cands1 = [L] \<or> subseq cands1 ch"
          by (auto split: if_splits)
        then show ?thesis
          using ch by (auto intro: subseq_order.order_trans)
      next
        case False
        then have lt: "walk1 < k" using w1k by simp
        then have "walk1 < length path" using a(3) by simp
        then have "path ! walk1 = CHR ''/''" by (rule ns(3))
        with a(5) lt have ne: "\<not> not_exist fs_Stat L (take walk1 path)" by blast
        from lookup_level_track [OF ne, of "fst marks" "snd marks" "[]" ch cl cands1] lv c
        have "(\<exists>xs' ys'. cands1 = xs' @ L # ys' \<and> subseq xs' ch \<and> subseq ys' cl)
            \<or> subseq cands1 ch"
          by simp
        then show ?thesis
        proof
          assume "\<exists>xs' ys'. cands1 = xs' @ L # ys' \<and> subseq xs' ch \<and> subseq ys' cl"
          then obtain xs' ys' where "cands1 = xs' @ L # ys'" "subseq xs' ch" by blast
          then have "cands1 = xs' @ L # ys' \<and> subseq xs' hi"
            using ch by (auto intro: subseq_order.order_trans)
          then show ?thesis using lt by auto
        next
          assume "subseq cands1 ch"
          then show ?thesis using ch by (auto intro: subseq_order.order_trans)
        qed
      qed
    qed
    from "1.IH" [OF True walk1_def marks_def lvl a rec inv' wpos'] show ?thesis .
  qed
qed

text \<open>
  Claim C1. Let layer \<open>L\<close> have the prefix \<open>pth\<close> as something that is not a
  directory. When the candidates \<open>xs @ L # ys\<close> are scanned at that prefix and the
  scan gives a visible set, then either no candidate above \<open>L\<close> has the prefix, \<open>L\<close> is
  the topmost candidate left and the visible set is \<open>L\<close> alone, or \<open>L\<close> and all the
  layers below it are dropped: the visible set is drawn from the candidates above \<open>L\<close>.
  So when \<^verbatim>\<open>lookup\<close> resolves a name (other than the root, which is not walked) over
  the stack \<open>hi @ L # lo\<close>, and \<open>L\<close> has the prefix that ends at \<open>k\<close> as a
  non-directory (having, as a file system does, the directories above it), the visible
  layers are \<open>L\<close> alone or layers above \<open>L\<close>: no layer below \<open>L\<close> is visible.
\<close>

theorem nondir_masks_lower_layers:
  assumes "fs_Stat L pth = Inr s" and "\<not> IsDir s"
  shows "(lookup_layers fs_Stat pth w1 wA (xs @ L # ys) 0 = Inr vis' \<longrightarrow>
            (if \<forall>x \<in> set xs. not_exist fs_Stat x pth then vis' = [L] else subseq vis' xs))
       \<and> (lookup fs_Stat op' name (hi @ L # lo) = Inr vis \<and> name \<noteq> ''.''
            \<and> k \<le> length name \<and> (k = length name \<or> name ! k = CHR ''/'')
            \<and> pth = take k name
            \<and> (\<forall>j<k. name ! j = CHR ''/'' \<longrightarrow> \<not> not_exist fs_Stat L (take j name))
            \<longrightarrow> vis = [L] \<or> subseq vis hi)"
proof (intro conjI impI)
  assume r: "lookup_layers fs_Stat pth w1 wA (xs @ L # ys) 0 = Inr vis'"
  have "lookup_level fs_Stat pth w1 wA [] (xs @ L # ys) = Inr vis'"
    using r lookup_layers_level [of 0 "xs @ L # ys" fs_Stat pth w1 wA] by simp
  from lookup_level_nondir [OF assms this]
  show "if \<forall>x \<in> set xs. not_exist fs_Stat x pth then vis' = [L] else subseq vis' xs"
    by (simp split: if_splits)
next
  assume h: "lookup fs_Stat op' name (hi @ L # lo) = Inr vis \<and> name \<noteq> ''.''
            \<and> k \<le> length name \<and> (k = length name \<or> name ! k = CHR ''/'')
            \<and> pth = take k name
            \<and> (\<forall>j<k. name ! j = CHR ''/'' \<longrightarrow> \<not> not_exist fs_Stat L (take j name))"
  then have valid: "ValidPath_elems name"
    and walk: "lookup_walk fs_Stat name 0 (hi @ L # lo) = Inr vis"
    by (auto simp: lookup_def ValidPath_def split: if_splits sum.splits)
  have st: "fs_Stat L (take k name) = Inr s"
    using assms(1) h by simp
  have inv: "(0 \<le> k \<and> (\<exists>ch cl. hi @ L # lo = ch @ L # cl \<and> subseq ch hi))
       \<or> (hi @ L # lo = [L] \<or> subseq (hi @ L # lo) hi)"
    by auto
  have wpos: "(0::nat) = 0 \<or> length name < 0 \<or> name ! (0 - 1) = CHR ''/''"
    by simp
  from h have k: "k \<le> length name" "k = length name \<or> name ! k = CHR ''/''"
    and anc: "\<forall>j<k. name ! j = CHR ''/'' \<longrightarrow> \<not> not_exist fs_Stat L (take j name)"
    by simp_all
  from lookup_walk_shadow [OF st assms(2) k anc ValidPath_elems_shape [OF valid] walk inv wpos]
  show "vis = [L] \<or> subseq vis hi" .
qed

lemma s_Stat_file: "s_Stat 1 ''a/b'' = Inr w_file"
  by (simp add: s_Stat_def)

lemma w_file_nondir: "\<not> IsDir w_file"
  by (simp add: w_file_def)

lemma s_level: "lookup_layers s_Stat ''a/b'' ''a/.wh.b'' ''a/.wh..wh..opq'' ([0] @ 1 # [2]) 0 = Inr [1]"
  by code_simp

lemma s_lookup: "lookup s_Stat ''open'' ''a/b'' ([0] @ 1 # [2]) = Inr [1]"
  by code_simp

lemma s_ancestors:
  "\<forall>j<3. ''a/b'' ! j = CHR ''/'' \<longrightarrow> \<not> not_exist s_Stat 1 (take j ''a/b'')"
  by (auto simp: less_Suc_eq numeral_3_eq_3 s_Stat_def not_exist_def w_dir_def)

theorem nondir_masks_lower_layers_witness:
  "s_Stat 1 ''a/b'' = Inr w_file \<and> \<not> IsDir w_file
   \<and> lookup_layers s_Stat ''a/b'' ''a/.wh.b'' ''a/.wh..wh..opq'' ([0] @ 1 # [2]) 0 = Inr [1]
   \<and> (if \<forall>x \<in> set [0]. not_exist s_Stat x ''a/b'' then [1] = [1 :: nat] else subseq [1] [0 :: nat])
   \<and> lookup s_Stat ''open'' ''a/b'' ([0] @ 1 # [2]) = Inr [1]
   \<and> ([1] = [1 :: nat] \<or> subseq [1] [0 :: nat])"
proof -
  note th = nondir_masks_lower_layers [where fs_Stat = s_Stat and L = 1 and pth = "''a/b''"
        and s = w_file and ?w1.0 = "''a/.wh.b''" and wA = "''a/.wh..wh..opq''" and xs = "[0]"
        and ys = "[2]" and vis' = "[1]" and op' = "''open''" and name = "''a/b''"
        and hi = "[0]" and lo = "[2]" and vis = "[1]" and k = 3,
      OF s_Stat_file w_file_nondir]
  have a: "if \<forall>x \<in> set [0]. not_exist s_Stat x ''a/b'' then [1] = [1 :: nat] else subseq [1] [0 :: nat]"
    using th [THEN conjunct1, rule_format, OF s_level] .
  have "lookup s_Stat ''open'' ''a/b'' ([0] @ 1 # [2]) = Inr [1] \<and> ''a/b'' \<noteq> ''.''
      \<and> 3 \<le> length ''a/b'' \<and> (3 = length ''a/b'' \<or> ''a/b'' ! 3 = CHR ''/'')
      \<and> ''a/b'' = take 3 ''a/b''
      \<and> (\<forall>j<3. ''a/b'' ! j = CHR ''/'' \<longrightarrow> \<not> not_exist s_Stat 1 (take j ''a/b''))"
    using s_lookup s_ancestors by simp
  from th [THEN conjunct2, rule_format, OF this]
  have b: "[1] = [1 :: nat] \<or> subseq [1] [0 :: nat]" .
  show ?thesis
    using s_Stat_file w_file_nondir s_level s_lookup a b by blast
qed

lemma drained_append: "drained masks (xs @ ys) = drained (drained masks xs) ys"
  by (induction xs arbitrary: masks) simp_all

lemma emitted_append:
  "emitted masks (xs @ ys) = emitted masks xs @ emitted (drained masks xs) ys"
  by (induction xs arbitrary: masks) simp_all

lemma scan_layer_exit:
  assumes "n = 0 \<or> dirents < n" and "dir_files dir = fl # files"
  shows "\<exists>exit p q. pending fl = p @ q
     \<and> scan_layer n collect dir acc dirents =
         Some (exit, advance dir p q, acc @ filter (emits (dir_masks dir)) p,
               dirents + length (filter (emits (dir_masks dir)) p))
     \<and> (exit = Break \<longrightarrow>
          q = [] \<and> (n = 0 \<or> dirents + length (filter (emits (dir_masks dir)) p) < n))"
proof (cases "n = 0")
  case True
  have "pending fl = pending fl @ []" by simp
  then show ?thesis
    using scan_layer_zero [OF assms(2), of acc dirents] True by blast
next
  case False
  then have "dirents < n" using assms(1) by simp
  from scan_layer_pos [OF this assms(2), of acc] show ?thesis
    by blast
qed

lemma position_start:
  "position layers [] [] (case layers of [] \<Rightarrow> [] | fl # fls \<Rightarrow> pending fl)
     \<lparr>dir_files = layers, dir_names = [], dir_masks = {}\<rparr>"
  by (cases layers) (simp_all add: position_def)

lemma position_next:
  assumes "prefix past layers" and "dir_masks dir = drained {} past" and "dir_names dir = []"
    and "layers = past @ dir_files dir \<or> dir_files dir = []"
  shows "\<exists>q. position layers past [] q dir"
proof (cases "dir_files dir")
  case Nil
  then show ?thesis using assms by (simp add: position_def)
next
  case (Cons cur lower)
  then have "layers = past @ cur # lower" using assms(4) by simp
  moreover have "cur\<lparr>pending := pending cur\<rparr> = cur" by simp
  ultimately have "position layers past [] (pending cur) dir"
    using assms(2,3) Cons by (simp add: position_def)
  then show ?thesis ..
qed

lemma scan_loop_position:
  assumes "n = 0 \<or> dirents < n" and "position layers past p q dir"
  shows "\<exists>err dir' out past' p' q'.
       scan_loop n collect dir acc dirents = Some (err, dir', acc @ out)
     \<and> position layers past' p' q' dir'
     \<and> emitted {} past' @ filter (emits (drained {} past')) p'
         = emitted {} past @ filter (emits (drained {} past)) p @ out"
  using assms
proof (induction "length (dir_files dir)" arbitrary: dir acc dirents past p q rule: less_induct)
  case less
  let ?M = "drained {} past"
  have M: "dir_masks dir = ?M" and N: "dir_names dir = entry_names ?M p"
    using less.prems(2) by (simp_all add: position_def)
  show ?case
  proof (cases "dir_files dir")
    case Nil
    have "scan_loop n collect dir acc dirents
        = Some (if dirents < n then Some EOF else None, dir, acc @ [])"
      using Nil by (simp add: scan_loop_done)
    then show ?thesis using less.prems(2) by (metis append_Nil2)
  next
    case (Cons fl files)
    with less.prems(2) obtain cur lower where
      layers: "layers = past @ cur # lower" and pq: "pending cur = p @ q"
      and fl: "fl = cur\<lparr>pending := q\<rparr>"
      and files: "files = (if opaque_in ?M p then [] else lower)"
      by (auto simp: position_def)
    from scan_layer_exit [OF less.prems(1) Cons, of acc]
    obtain exit p1 q1 where pq1: "pending fl = p1 @ q1"
      and sl: "scan_layer n collect dir acc dirents =
         Some (exit, advance dir p1 q1, acc @ filter (emits ?M) p1,
               dirents + length (filter (emits ?M) p1))"
      and ex: "exit = Break \<longrightarrow>
          q1 = [] \<and> (n = 0 \<or> dirents + length (filter (emits ?M) p1) < n)"
      unfolding M by blast
    let ?out = "filter (emits ?M) p1"
    let ?dir1 = "advance dir p1 q1"
    have q: "q = p1 @ q1" using pq1 fl by simp
    have f1: "dir_files ?dir1 =
        cur\<lparr>pending := q1\<rparr> # (if opaque_in ?M (p @ p1) then [] else lower)"
      using Cons fl files M by (simp add: opaque_in_append)
    have pos1: "position layers past (p @ p1) q1 ?dir1"
      unfolding position_def
      using layers pq q f1 M N by (simp add: entry_names_append)
    show ?thesis
    proof (cases exit)
      case (Return err)
      have "scan_loop n collect dir acc dirents = Some (err, ?dir1, acc @ ?out)"
        by (subst scan_loop.simps) (simp add: Cons sl Return)
      moreover have "emitted {} past @ filter (emits ?M) (p @ p1)
          = emitted {} past @ filter (emits ?M) p @ ?out"
        by simp
      ultimately show ?thesis using pos1 by blast
    next
      case Break
      then have q1: "q1 = []" and lt: "n = 0 \<or> dirents + length ?out < n"
        using ex by simp_all
      let ?dir2 = "apply_names ?dir1"
      let ?past' = "past @ [cur]"
      have step: "scan_loop n collect dir acc dirents =
          scan_loop n collect ?dir2 (acc @ ?out) (dirents + length ?out)"
        by (subst scan_loop.simps) (simp add: Cons sl Break)
      have cur: "pending cur = p @ p1" using pq q q1 by simp
      have M': "drained {} ?past' = ?M \<union> set (entry_names ?M (p @ p1))"
        by (simp add: drained_append cur)
      have m2: "dir_masks ?dir2 = drained {} ?past'"
        using M N M' by (simp add: entry_names_append)
      have f2: "dir_files ?dir2 = (if opaque_in ?M (p @ p1) then [] else lower)"
        using f1 by simp
      have "\<exists>q'. position layers ?past' [] q' ?dir2"
        using m2 f2 layers by (intro position_next) auto
      then obtain q' where pos2: "position layers ?past' [] q' ?dir2" ..
      have shorter: "length (dir_files ?dir2) < length (dir_files dir)"
        using f2 Cons files by (auto simp: opaque_in_append)
      from less.hyps [OF shorter lt pos2, of "acc @ ?out"]
      obtain err dir' out past' p' q'' where
        r: "scan_loop n collect ?dir2 (acc @ ?out) (dirents + length ?out)
              = Some (err, dir', (acc @ ?out) @ out)"
        and pos': "position layers past' p' q'' dir'"
        and em: "emitted {} past' @ filter (emits (drained {} past')) p'
           = emitted {} ?past' @ filter (emits (drained {} ?past')) [] @ out"
        by blast
      have "emitted {} ?past' = emitted {} past @ filter (emits ?M) (p @ p1)"
        by (simp add: emitted_append cur)
      then have em': "emitted {} past' @ filter (emits (drained {} past')) p'
           = emitted {} past @ filter (emits ?M) p @ (?out @ out)"
        using em by simp
      have "scan_loop n collect dir acc dirents = Some (err, dir', acc @ (?out @ out))"
        using step r by simp
      then show ?thesis using pos' em' by blast
    qed
  qed
qed

lemma ReadDir_position:
  assumes "position layers past p q (cursor a f)"
  shows "\<exists>out err dir' past' p' q'.
       ReadDir a n f = Some ((out, err), f\<lparr>f_dirReader := Some dir'\<rparr>)
     \<and> position layers past' p' q' dir'
     \<and> emitted {} past' @ filter (emits (drained {} past')) p'
         = emitted {} past @ filter (emits (drained {} past)) p @ out"
proof -
  let ?n = "nat (if n < 0 then 0 else n)"
  have "?n = 0 \<or> 0 < ?n" by auto
  from scan_loop_position [OF this assms, of "[]"]
  obtain err dir' out past' p' q' where
    "scan_loop ?n collect (cursor a f) [] 0 = Some (err, dir', [] @ out)"
    "position layers past' p' q' dir'"
    "emitted {} past' @ filter (emits (drained {} past')) p'
         = emitted {} past @ filter (emits (drained {} past)) p @ out"
    by blast
  then show ?thesis
    by (auto simp: ReadDir_def scan_def Let_def)
qed

lemma ReadDirs_position:
  assumes "position layers past p q (cursor a f)"
  shows "\<exists>agg f' past' p' q'.
       ReadDirs a ns f = Some (agg, f')
     \<and> position layers past' p' q' (cursor a f')
     \<and> emitted {} past' @ filter (emits (drained {} past')) p'
         = emitted {} past @ filter (emits (drained {} past)) p @ agg"
  using assms
proof (induction ns arbitrary: f past p q)
  case Nil
  then show ?case by auto
next
  case (Cons n ns)
  from ReadDir_position [OF Cons.prems, of n]
  obtain out err dir' past1 p1 q1 where
    r: "ReadDir a n f = Some ((out, err), f\<lparr>f_dirReader := Some dir'\<rparr>)"
    and pos1: "position layers past1 p1 q1 dir'"
    and em1: "emitted {} past1 @ filter (emits (drained {} past1)) p1
         = emitted {} past @ filter (emits (drained {} past)) p @ out"
    by blast
  let ?f1 = "f\<lparr>f_dirReader := Some dir'\<rparr>"
  have "position layers past1 p1 q1 (cursor a ?f1)" using pos1 by simp
  from Cons.IH [OF this]
  obtain agg f' past' p' q' where
    rs: "ReadDirs a ns ?f1 = Some (agg, f')"
    and pos': "position layers past' p' q' (cursor a f')"
    and em': "emitted {} past' @ filter (emits (drained {} past')) p'
         = emitted {} past1 @ filter (emits (drained {} past1)) p1 @ agg"
    by blast
  have "ReadDirs a (n # ns) f = Some (out @ agg, f')"
    using r rs by simp
  moreover have "emitted {} past' @ filter (emits (drained {} past')) p'
         = emitted {} past @ filter (emits (drained {} past)) p @ (out @ agg)"
    using em' em1 by simp
  ultimately show ?case using pos' by blast
qed

lemma ReadDirs_fresh:
  assumes "f_dirReader h = None"
  shows "\<exists>agg h' past p q.
       ReadDirs a ns h = Some (agg, h')
     \<and> position (List.map_filter a (f_layers h)) past p q (cursor a h')
     \<and> agg = emitted {} past @ filter (emits (drained {} past)) p"
proof -
  let ?F = "List.map_filter a (f_layers h)"
  have "cursor a h = \<lparr>dir_files = ?F, dir_names = [], dir_masks = {}\<rparr>"
    using assms by (simp add: cursor_def new_dirReader_def)
  then have "position ?F [] [] (case ?F of [] \<Rightarrow> [] | fl # fls \<Rightarrow> pending fl) (cursor a h)"
    using position_start [of ?F] by simp
  from ReadDirs_position [OF this, of ns]
  obtain agg h' past p q where "ReadDirs a ns h = Some (agg, h')"
    and "position ?F past p q (cursor a h')"
    and "emitted {} past @ filter (emits (drained {} past)) p
         = emitted {} [] @ filter (emits (drained {} [])) [] @ agg"
    by blast
  then have "ReadDirs a ns h = Some (agg, h') \<and> position ?F past p q (cursor a h')
     \<and> agg = emitted {} past @ filter (emits (drained {} past)) p"
    by simp
  then show ?thesis by blast
qed

text \<open>
  Claim C4. The loop over the entries of a layer never changes the mask set, whatever
  the callback does. Reading a layer keeps the mask set as it was: the entries it emits
  are those of the part \<open>p\<close> it read that the mask set of the start lets through, the
  names they contribute go to the pending batch, and the loop leaves the layer for the
  next one (\<open>Break\<close>, after which alone the batch is moved to the mask set) only when
  nothing of the layer is left. Over any sequence of \<^verbatim>\<open>ReadDir\<close> calls the mask set
  only grows, and no entry returned has a name that was in the mask set at the start.
  After any sequence of \<^verbatim>\<open>ReadDir\<close> calls on a handle that had not been read, with
  any counts, the cursor is at a layer \<open>cur\<close> of which the part \<open>p\<close> has been read and
  \<open>q\<close> is left, or past its last layer: the mask set is exactly what the layers \<open>past\<close>
  above \<open>cur\<close>, read to their end, contributed, each under the mask set of the layers
  above it; the names that \<open>p\<close> contributed are the pending batch and are not in the
  mask set on their account; and the entries returned are those of each layer that the
  mask set of the layers above it lets through.
\<close>

theorem masks_only_after_drain:
  "dir_masks (fst (snd (scan_entries f entries dir acc dirents))) = dir_masks dir
   \<and> ((n = 0 \<or> dirents < n) \<and> dir_files dir = fl # files \<longrightarrow>
        (\<exists>exit dir' p q.
            pending fl = p @ q
          \<and> scan_layer n collect dir ret dirents =
               Some (exit, dir', ret @ filter (emits (dir_masks dir)) p,
                     dirents + length (filter (emits (dir_masks dir)) p))
          \<and> dir_masks dir' = dir_masks dir
          \<and> dir_names dir' = dir_names dir @ entry_names (dir_masks dir) p
          \<and> map pending (take 1 (dir_files dir')) = [q]
          \<and> (exit = Break \<longrightarrow> q = [])))
   \<and> (\<exists>agg h'. ReadDirs a ns h = Some (agg, h')
          \<and> dir_masks (cursor a h) \<subseteq> dir_masks (cursor a h')
          \<and> (\<forall>e \<in> set agg. entry_Name e \<notin> dir_masks (cursor a h)))
   \<and> (f_dirReader h = None \<longrightarrow>
        (\<exists>agg h' past p q.
            ReadDirs a ns h = Some (agg, h')
          \<and> dir_masks (cursor a h') = drained {} past
          \<and> dir_names (cursor a h') = entry_names (drained {} past) p
          \<and> agg = emitted {} past @ filter (emits (drained {} past)) p
          \<and> (dir_files (cursor a h') = [] \<and> p = []
                \<and> prefix past (List.map_filter a (f_layers h))
              \<or> (\<exists>cur lower.
                    List.map_filter a (f_layers h) = past @ cur # lower
                  \<and> pending cur = p @ q
                  \<and> dir_files (cursor a h') =
                      cur\<lparr>pending := q\<rparr>
                      # (if opaque_in (drained {} past) p then [] else lower)))))"
proof (intro conjI impI)
  show "dir_masks (fst (snd (scan_entries f entries dir acc dirents))) = dir_masks dir"
    using scan_entries_masks [of f entries dir acc dirents]
    by (cases "scan_entries f entries dir acc dirents") auto
next
  assume h: "(n = 0 \<or> dirents < n) \<and> dir_files dir = fl # files"
  from scan_layer_frame [of n dirents dir fl files ret] h
  obtain exit p q where pq: "pending fl = p @ q"
    and sl: "scan_layer n collect dir ret dirents =
         Some (exit, advance dir p q, ret @ filter (emits (dir_masks dir)) p,
               dirents + length (filter (emits (dir_masks dir)) p))"
    and br: "exit = Break \<longrightarrow> q = []"
    by blast
  have "map pending (take 1 (dir_files (advance dir p q))) = [q]"
    using h by simp
  then show "\<exists>exit dir' p q.
            pending fl = p @ q
          \<and> scan_layer n collect dir ret dirents =
               Some (exit, dir', ret @ filter (emits (dir_masks dir)) p,
                     dirents + length (filter (emits (dir_masks dir)) p))
          \<and> dir_masks dir' = dir_masks dir
          \<and> dir_names dir' = dir_names dir @ entry_names (dir_masks dir) p
          \<and> map pending (take 1 (dir_files dir')) = [q]
          \<and> (exit = Break \<longrightarrow> q = [])"
    apply (intro exI [of _ exit] exI [of _ "advance dir p q"])
    apply (rule exI [of _ p])
    apply (rule exI [of _ q])
    using pq sl br by simp
next
  show "\<exists>agg h'. ReadDirs a ns h = Some (agg, h')
          \<and> dir_masks (cursor a h) \<subseteq> dir_masks (cursor a h')
          \<and> (\<forall>e \<in> set agg. entry_Name e \<notin> dir_masks (cursor a h))"
    by (rule ReadDirs_not_masked)
next
  assume "f_dirReader h = None"
  from ReadDirs_fresh [OF this, of a ns]
  show "\<exists>agg h' past p q.
            ReadDirs a ns h = Some (agg, h')
          \<and> dir_masks (cursor a h') = drained {} past
          \<and> dir_names (cursor a h') = entry_names (drained {} past) p
          \<and> agg = emitted {} past @ filter (emits (drained {} past)) p
          \<and> (dir_files (cursor a h') = [] \<and> p = []
                \<and> prefix past (List.map_filter a (f_layers h))
              \<or> (\<exists>cur lower.
                    List.map_filter a (f_layers h) = past @ cur # lower
                  \<and> pending cur = p @ q
                  \<and> dir_files (cursor a h') =
                      cur\<lparr>pending := q\<rparr>
                      # (if opaque_in (drained {} past) p then [] else lower)))"
    unfolding position_def by blast
qed

lemma m_handle_reads:
  "map_option (\<lambda>(agg, h'). (agg, dir_masks (cursor Some h'), dir_names (cursor Some h'),
       map pending (dir_files (cursor Some h')))) (ReadDirs Some [1, 1] m_handle)
     = Some ([w_entry ''a'', w_entry ''b''], {}, [''b'', ''a'', ''b''],
             [[], [w_entry ''b'', w_entry ''c'']])
   \<and> map_option (\<lambda>(agg, h'). (agg, dir_masks (cursor Some h'), dir_names (cursor Some h'),
       map pending (dir_files (cursor Some h')))) (ReadDirs Some [1, 1, 1] m_handle)
     = Some ([w_entry ''a'', w_entry ''b'', w_entry ''c''], {''a'', ''b''}, [''c''], [[]])"
  by code_simp

theorem masks_only_after_drain_witness:
  "(\<exists>exit dir' p q.
        pending (w_stream [''file-1'', ''.wh.d'']) = p @ q
      \<and> scan_layer 1 collect (cursor Some w_handle) [] 0 =
           Some (exit, dir', [] @ filter (emits (dir_masks (cursor Some w_handle))) p,
                 0 + length (filter (emits (dir_masks (cursor Some w_handle))) p))
      \<and> dir_masks dir' = dir_masks (cursor Some w_handle)
      \<and> dir_names dir' = dir_names (cursor Some w_handle)
            @ entry_names (dir_masks (cursor Some w_handle)) p
      \<and> map pending (take 1 (dir_files dir')) = [q]
      \<and> (exit = Break \<longrightarrow> q = []))
   \<and> (\<exists>agg h'. ReadDirs Some [1, 0] w_handle = Some (agg, h')
          \<and> dir_masks (cursor Some w_handle) \<subseteq> dir_masks (cursor Some h')
          \<and> (\<forall>e \<in> set agg. entry_Name e \<notin> dir_masks (cursor Some w_handle)))
   \<and> (\<exists>agg h' past p q.
          ReadDirs Some [1, 1] m_handle = Some (agg, h')
        \<and> agg = [w_entry ''a'', w_entry ''b'']
        \<and> dir_masks (cursor Some h') = {}
        \<and> dir_names (cursor Some h') = [''b'', ''a'', ''b'']
        \<and> dir_masks (cursor Some h') = drained {} past
        \<and> dir_names (cursor Some h') = entry_names (drained {} past) p
        \<and> agg = emitted {} past @ filter (emits (drained {} past)) p
        \<and> (dir_files (cursor Some h') = [] \<and> p = []
              \<and> prefix past (List.map_filter Some (f_layers m_handle))
            \<or> (\<exists>cur lower.
                  List.map_filter Some (f_layers m_handle) = past @ cur # lower
                \<and> pending cur = p @ q
                \<and> dir_files (cursor Some h') =
                    cur\<lparr>pending := q\<rparr>
                    # (if opaque_in (drained {} past) p then [] else lower))))
   \<and> (\<exists>agg h' past p q.
          ReadDirs Some [1, 1, 1] m_handle = Some (agg, h')
        \<and> agg = [w_entry ''a'', w_entry ''b'', w_entry ''c'']
        \<and> dir_masks (cursor Some h') = {''a'', ''b''}
        \<and> dir_names (cursor Some h') = [''c'']
        \<and> dir_masks (cursor Some h') = drained {} past
        \<and> dir_names (cursor Some h') = entry_names (drained {} past) p
        \<and> agg = emitted {} past @ filter (emits (drained {} past)) p
        \<and> (dir_files (cursor Some h') = [] \<and> p = []
              \<and> prefix past (List.map_filter Some (f_layers m_handle))
            \<or> (\<exists>cur lower.
                  List.map_filter Some (f_layers m_handle) = past @ cur # lower
                \<and> pending cur = p @ q
                \<and> dir_files (cursor Some h') =
                    cur\<lparr>pending := q\<rparr>
                    # (if opaque_in (drained {} past) p then [] else lower))))"
proof -
  have h: "((1::nat) = 0 \<or> (0::nat) < 1)
      \<and> dir_files (cursor Some w_handle)
          = w_stream [''file-1'', ''.wh.d''] # [w_stream [''file-0'', ''d''], w_stream [''d'']]"
    using w_handle_files by simp
  note th = masks_only_after_drain [where n = 1 and dirents = 0
      and dir = "cursor Some w_handle" and fl = "w_stream [''file-1'', ''.wh.d'']"
      and files = "[w_stream [''file-0'', ''d''], w_stream [''d'']]"
      and ret = "[]" and a = Some and ns = "[1, 0]" and h = w_handle]
  have fresh: "f_dirReader m_handle = None" by (simp add: m_handle_def)
  note t2 = masks_only_after_drain [where a = Some and ns = "[1, 1]" and h = m_handle,
      THEN conjunct2, THEN conjunct2, THEN conjunct2, rule_format, OF fresh]
  note t3 = masks_only_after_drain [where a = Some and ns = "[1, 1, 1]" and h = m_handle,
      THEN conjunct2, THEN conjunct2, THEN conjunct2, rule_format, OF fresh]
  from t2 obtain agg h' past p q where r: "ReadDirs Some [1, 1] m_handle = Some (agg, h')"
    and inv: "dir_masks (cursor Some h') = drained {} past"
      "dir_names (cursor Some h') = entry_names (drained {} past) p"
      "agg = emitted {} past @ filter (emits (drained {} past)) p"
      "dir_files (cursor Some h') = [] \<and> p = []
              \<and> prefix past (List.map_filter Some (f_layers m_handle))
            \<or> (\<exists>cur lower.
                  List.map_filter Some (f_layers m_handle) = past @ cur # lower
                \<and> pending cur = p @ q
                \<and> dir_files (cursor Some h') =
                    cur\<lparr>pending := q\<rparr>
                    # (if opaque_in (drained {} past) p then [] else lower))"
    by blast
  from m_handle_reads r have vals: "agg = [w_entry ''a'', w_entry ''b'']"
    "dir_masks (cursor Some h') = {}" "dir_names (cursor Some h') = [''b'', ''a'', ''b'']"
    by simp_all
  have 3: "\<exists>agg h' past p q.
          ReadDirs Some [1, 1] m_handle = Some (agg, h')
        \<and> agg = [w_entry ''a'', w_entry ''b'']
        \<and> dir_masks (cursor Some h') = {}
        \<and> dir_names (cursor Some h') = [''b'', ''a'', ''b'']
        \<and> dir_masks (cursor Some h') = drained {} past
        \<and> dir_names (cursor Some h') = entry_names (drained {} past) p
        \<and> agg = emitted {} past @ filter (emits (drained {} past)) p
        \<and> (dir_files (cursor Some h') = [] \<and> p = []
              \<and> prefix past (List.map_filter Some (f_layers m_handle))
            \<or> (\<exists>cur lower.
                  List.map_filter Some (f_layers m_handle) = past @ cur # lower
                \<and> pending cur = p @ q
                \<and> dir_files (cursor Some h') =
                    cur\<lparr>pending := q\<rparr>
                    # (if opaque_in (drained {} past) p then [] else lower)))"
    apply (rule exI [of _ agg])
    apply (rule exI [of _ h'])
    apply (rule exI [of _ past])
    apply (rule exI [of _ p])
    apply (rule exI [of _ q])
    using r vals inv by simp
  from t3 obtain agg3 h3 past3 p3 q3 where
    r3: "ReadDirs Some [1, 1, 1] m_handle = Some (agg3, h3)"
    and inv3: "dir_masks (cursor Some h3) = drained {} past3"
      "dir_names (cursor Some h3) = entry_names (drained {} past3) p3"
      "agg3 = emitted {} past3 @ filter (emits (drained {} past3)) p3"
      "dir_files (cursor Some h3) = [] \<and> p3 = []
              \<and> prefix past3 (List.map_filter Some (f_layers m_handle))
            \<or> (\<exists>cur lower.
                  List.map_filter Some (f_layers m_handle) = past3 @ cur # lower
                \<and> pending cur = p3 @ q3
                \<and> dir_files (cursor Some h3) =
                    cur\<lparr>pending := q3\<rparr>
                    # (if opaque_in (drained {} past3) p3 then [] else lower))"
    by blast
  from m_handle_reads r3 have vals3: "agg3 = [w_entry ''a'', w_entry ''b'', w_entry ''c'']"
    "dir_masks (cursor Some h3) = {''a'', ''b''}" "dir_names (cursor Some h3) = [''c'']"
    by simp_all
  have 4: "\<exists>agg h' past p q.
          ReadDirs Some [1, 1, 1] m_handle = Some (agg, h')
        \<and> agg = [w_entry ''a'', w_entry ''b'', w_entry ''c'']
        \<and> dir_masks (cursor Some h') = {''a'', ''b''}
        \<and> dir_names (cursor Some h') = [''c'']
        \<and> dir_masks (cursor Some h') = drained {} past
        \<and> dir_names (cursor Some h') = entry_names (drained {} past) p
        \<and> agg = emitted {} past @ filter (emits (drained {} past)) p
        \<and> (dir_files (cursor Some h') = [] \<and> p = []
              \<and> prefix past (List.map_filter Some (f_layers m_handle))
            \<or> (\<exists>cur lower.
                  List.map_filter Some (f_layers m_handle) = past @ cur # lower
                \<and> pending cur = p @ q
                \<and> dir_files (cursor Some h') =
                    cur\<lparr>pending := q\<rparr>
                    # (if opaque_in (drained {} past) p then [] else lower)))"
    apply (rule exI [of _ agg3])
    apply (rule exI [of _ h3])
    apply (rule exI [of _ past3])
    apply (rule exI [of _ p3])
    apply (rule exI [of _ q3])
    using r3 vals3 inv3 by simp
  from th [THEN conjunct2, THEN conjunct1, rule_format, OF h]
    th [THEN conjunct2, THEN conjunct2, THEN conjunct1] 3 4
  show ?thesis by (intro conjI)
qed

lemma lookup_level_remove:
  "not_exist fs_Stat l pth \<Longrightarrow>
     lookup_level fs_Stat pth w1 wA kept (xs @ l # ys)
       = lookup_level fs_Stat pth w1 wA kept (xs @ ys)"
proof (induction xs arbitrary: kept)
  case Nil
  then show ?case by (auto simp: not_exist_def split: sum.splits)
next
  case (Cons x xs)
  then show ?case by (auto split: sum.splits)
qed

lemma lookup_level_abort:
  assumes "\<forall>x \<in> set xs. passes fs_Stat pth w1 wA x"
    and "fs_Stat l pth = Inl err \<and> \<not> errors_Is err ErrNotExist
       \<or> (\<exists>s. fs_Stat l pth = Inr s \<and> IsDir s \<and> hasOneOf fs_Stat l [w1, wA] = Inl err)"
  shows "lookup_level fs_Stat pth w1 wA kept (xs @ l # ys) = Inl err"
  using assms(1)
proof (induction xs arbitrary: kept)
  case Nil
  then show ?case using assms(2) by auto
next
  case (Cons x xs)
  then show ?case
    by (auto simp: passes_def not_exist_def split: sum.splits)
qed

lemma hasOneOf_error:
  "hasOneOf fs_Stat l names = Inl err \<Longrightarrow>
     \<exists>n \<in> set names. fs_Stat l n = Inl err \<and> \<not> errors_Is err ErrNotExist"
  by (induction names) (auto split: sum.splits if_splits)

lemma lookup_level_error:
  "lookup_level fs_Stat pth w1 wA kept rest = Inl err \<Longrightarrow>
     \<exists>l \<in> set rest. \<exists>p. fs_Stat l p = Inl err \<and> \<not> errors_Is err ErrNotExist"
proof (induction rest arbitrary: kept)
  case Nil
  then show ?case by simp
next
  case (Cons l rest)
  show ?case
  proof (cases "fs_Stat l pth")
    case (Inl e)
    with Cons show ?thesis by (auto split: if_splits)
  next
    case (Inr s)
    show ?thesis
    proof (cases "hasOneOf fs_Stat l [w1, wA]")
      case (Inl e)
      from hasOneOf_error [OF this] Cons.prems Inr Inl Cons.IH show ?thesis
        by (auto split: if_splits)
    next
      case ex: (Inr exist)
      with Cons Inr show ?thesis by (auto split: if_splits)
    qed
  qed
qed

lemma lookup_walk_error:
  assumes "lookup_walk fs_Stat path walk cands = Inl err" and "set cands \<subseteq> set layers"
  shows "\<exists>l \<in> set layers. \<exists>p. fs_Stat l p = Inl err \<and> \<not> errors_Is err ErrNotExist"
  using assms
proof (induction fs_Stat path walk cands rule: lookup_walk.induct)
  case (1 fs_Stat path walk cands)
  show ?case
  proof (cases "walk < length path \<and> 0 < length cands")
    case False
    then have "lookup_walk fs_Stat path walk cands = Inr cands"
      by (subst lookup_walk.simps) auto
    with "1.prems" show ?thesis by simp
  next
    case True
    define walk1 where "walk1 = (case IndexByte (drop walk path) CHR ''/'' of
        None \<Rightarrow> length path | Some i \<Rightarrow> walk + i)"
    define marks where "marks = whiteout (take walk1 path)"
    show ?thesis
    proof (cases "lookup_layers fs_Stat (take walk1 path) (fst marks) (snd marks) cands 0")
      case (Inl e)
      then have "lookup_walk fs_Stat path walk cands = Inl e"
        using True by (subst lookup_walk.simps) (simp add: Let_def walk1_def marks_def)
      with "1.prems"(1) have "e = err" by simp
      with Inl have "lookup_level fs_Stat (take walk1 path) (fst marks) (snd marks) [] cands = Inl err"
        using lookup_layers_level [of 0 cands fs_Stat "take walk1 path" "fst marks" "snd marks"]
        by simp
      from lookup_level_error [OF this] "1.prems"(2) show ?thesis by blast
    next
      case (Inr cands1)
      then have rec: "lookup_walk fs_Stat path (walk1 + 1) cands1 = Inl err"
        using True "1.prems"(1)
        by (subst (asm) lookup_walk.simps) (simp add: Let_def walk1_def marks_def)
      have "lookup_level fs_Stat (take walk1 path) (fst marks) (snd marks) [] cands = Inr cands1"
        using Inr lookup_layers_level [of 0 cands fs_Stat "take walk1 path" "fst marks" "snd marks"]
        by simp
      from lookup_level_kept [OF this] have "subseq cands1 cands" by auto
      then have "set cands1 \<subseteq> set cands"
        using list_emb_set [of "(=)" cands1 cands] by auto
      then have "set cands1 \<subseteq> set layers"
        using "1.prems"(2) by simp
      from "1.IH" [OF True walk1_def marks_def Inr rec this] show ?thesis .
    qed
  qed
qed

lemma lookup_error:
  assumes "lookup fs_Stat op' name layers = Inl err"
  shows "err = PathError op' name ErrNotExist
     \<or> (\<exists>l \<in> set layers. \<exists>p. fs_Stat l p = Inl err \<and> \<not> errors_Is err ErrNotExist)"
proof (cases "lookup_walk fs_Stat name 0 layers")
  case (Inl e)
  with assms have "err = PathError op' name ErrNotExist \<or> e = err"
    by (auto simp: lookup_def split: if_splits)
  then show ?thesis
    using lookup_walk_error [of fs_Stat name 0 layers e layers] Inl by auto
next
  case (Inr vis)
  with assms show ?thesis
    by (auto simp: lookup_def split: if_splits)
qed

lemma filter_prefix_length:
  "es = p @ q \<Longrightarrow> length (filter P p) \<le> length (filter P es)"
  by simp

lemma ReadDir_fails:
  assumes "0 < n" and "dir_files (cursor a f) = fl # files"
    and "failure fl = Some err" and "err \<noteq> EOF"
    and "length (filter (emits (dir_masks (cursor a f))) (pending fl)) < nat n"
  shows "\<exists>f'. ReadDir a n f
           = Some ((filter (emits (dir_masks (cursor a f))) (pending fl), Some err), f')
         \<and> dir_files (cursor a f') =
             fl\<lparr>pending := []\<rparr>
             # (if opaque_in (dir_masks (cursor a f)) (pending fl) then [] else files)"
proof -
  let ?dir = "cursor a f"
  let ?M = "dir_masks ?dir"
  have n: "nat (if n < 0 then 0 else n) = nat n" "0 < nat n"
    using assms(1) by simp_all
  from scan_layer_pos [OF n(2) assms(2), of "[]"]
  obtain exit p q where pq: "pending fl = p @ q"
    and sl: "scan_layer (nat n) collect ?dir [] 0 =
         Some (exit, advance ?dir p q, [] @ filter (emits ?M) p,
               0 + length (filter (emits ?M) p))"
    and ex: "exit = Return None \<and> 0 + length (filter (emits ?M) p) = nat n
        \<or> q = [] \<and> 0 + length (filter (emits ?M) p) < nat n
           \<and> (exit = Break \<and> (failure fl = None \<or> failure fl = Some EOF)
              \<or> (\<exists>e. exit = Return (Some e) \<and> failure fl = Some e \<and> e \<noteq> EOF))"
    by blast
  have "length (filter (emits ?M) p) < nat n"
    using filter_prefix_length [OF pq, of "emits ?M"] assms(5) by simp
  with ex assms(3,4) have q: "q = []" and exit: "exit = Return (Some err)"
    by auto
  have "scan_loop (nat n) collect ?dir [] 0
      = Some (Some err, advance ?dir p q, filter (emits ?M) p)"
    by (subst scan_loop.simps) (simp add: assms(2) sl exit)
  then have "ReadDir a n f
      = Some ((filter (emits ?M) (pending fl), Some err),
              f\<lparr>f_dirReader := Some (advance ?dir (pending fl) [])\<rparr>)"
    using pq q n(1) by (simp add: ReadDir_def scan_def Let_def)
  moreover have "dir_files (advance ?dir (pending fl) []) =
      fl\<lparr>pending := []\<rparr> # (if opaque_in ?M (pending fl) then [] else files)"
    using assms(2) by simp
  ultimately show ?thesis by simp
qed

lemma ReadDir_error_sound:
  assumes "ReadDir a n f = Some ((out, Some err), f')" and "err \<noteq> EOF"
  shows "0 < n \<and> (\<exists>d \<in> set (dir_files (cursor a f)). failure d = Some err)"
proof (cases "0 < n")
  case True
  from ReadDir_pos [OF True, of a f] assms(1)
  obtain dir' where post: "scan_post (nat n) 0 (cursor a f) (Some err) dir' out"
    by auto
  then have sub: "failure ` set (dir_files dir') \<subseteq> failure ` set (dir_files (cursor a f))"
    and "\<exists>e fl fls. Some err = Some e \<and> e \<noteq> EOF
           \<and> dir_files dir' = fl # fls \<and> failure fl = Some e"
    using assms(2) by (auto simp: scan_post_def)
  then obtain fl fls where "dir_files dir' = fl # fls" "failure fl = Some err"
    by auto
  then have "Some err \<in> failure ` set (dir_files dir')"
    by (metis imageI list.set_intros(1))
  with sub have "Some err \<in> failure ` set (dir_files (cursor a f))" by blast
  then show ?thesis using True by auto
next
  case False
  then have "n \<le> 0" by simp
  from ReadDir_nonpos [OF this, of a f] assms(1) show ?thesis by auto
qed

lemma hasOneOf_abort:
  assumes "\<forall>m \<in> set ms. not_exist fs_Stat l m"
    and "fs_Stat l m' = Inl err" and "\<not> errors_Is err ErrNotExist"
  shows "hasOneOf fs_Stat l (ms @ m' # ms') = Inl err"
  using assms(1)
proof (induction ms)
  case Nil
  then show ?case using assms(2,3) by simp
next
  case (Cons m ms)
  then show ?case by (auto simp: not_exist_def split: sum.splits)
qed

lemma scan_layer_whole:
  assumes "dirents < n" and "dir_files dir = fl # files"
    and "dirents + length (filter (emits (dir_masks dir)) (pending fl)) < n"
  shows "\<exists>exit. scan_layer n collect dir acc dirents =
         Some (exit, advance dir (pending fl) [],
               acc @ filter (emits (dir_masks dir)) (pending fl),
               dirents + length (filter (emits (dir_masks dir)) (pending fl)))
     \<and> (exit = Break \<and> (failure fl = None \<or> failure fl = Some EOF)
        \<or> (\<exists>e. exit = Return (Some e) \<and> failure fl = Some e \<and> e \<noteq> EOF))"
proof -
  let ?M = "dir_masks dir"
  from scan_layer_pos [OF assms(1,2), of acc]
  obtain exit p q where pq: "pending fl = p @ q"
    and sl: "scan_layer n collect dir acc dirents =
         Some (exit, advance dir p q, acc @ filter (emits ?M) p,
               dirents + length (filter (emits ?M) p))"
    and ex: "exit = Return None \<and> dirents + length (filter (emits ?M) p) = n
        \<or> q = [] \<and> dirents + length (filter (emits ?M) p) < n
           \<and> (exit = Break \<and> (failure fl = None \<or> failure fl = Some EOF)
              \<or> (\<exists>e. exit = Return (Some e) \<and> failure fl = Some e \<and> e \<noteq> EOF))"
    by blast
  have "length (filter (emits ?M) p) \<le> length (filter (emits ?M) (pending fl))"
    using filter_prefix_length [OF pq] .
  then have "dirents + length (filter (emits ?M) p) < n"
    using assms(3) by simp
  with ex have q: "q = []"
    and ex': "exit = Break \<and> (failure fl = None \<or> failure fl = Some EOF)
        \<or> (\<exists>e. exit = Return (Some e) \<and> failure fl = Some e \<and> e \<noteq> EOF)"
    by auto
  have "p = pending fl" using pq q by simp
  with sl q ex' show ?thesis by blast
qed

lemma scan_loop_fail:
  assumes "dirents < n" and "dir_files dir = fl # files"
    and "failure fl = Some err" and "err \<noteq> EOF"
    and "dirents + length (filter (emits (dir_masks dir)) (pending fl)) < n"
  shows "scan_loop n collect dir acc dirents =
     Some (Some err, advance dir (pending fl) [],
           acc @ filter (emits (dir_masks dir)) (pending fl))"
proof -
  from scan_layer_whole [OF assms(1,2,5), of acc] assms(3,4)
  have "scan_layer n collect dir acc dirents =
         Some (Return (Some err), advance dir (pending fl) [],
               acc @ filter (emits (dir_masks dir)) (pending fl),
               dirents + length (filter (emits (dir_masks dir)) (pending fl)))"
    by auto
  then show ?thesis
    by (subst scan_loop.simps) (simp add: assms(2))
qed

lemma scan_loop_next:
  assumes "dirents < n" and "dir_files dir = fl # files"
    and "failure fl = None \<or> failure fl = Some EOF"
    and "dirents + length (filter (emits (dir_masks dir)) (pending fl)) < n"
  shows "scan_loop n collect dir acc dirents =
     scan_loop n collect (apply_names (advance dir (pending fl) []))
       (acc @ filter (emits (dir_masks dir)) (pending fl))
       (dirents + length (filter (emits (dir_masks dir)) (pending fl)))"
proof -
  from scan_layer_whole [OF assms(1,2,4), of acc] assms(3)
  have "scan_layer n collect dir acc dirents =
         Some (Break, advance dir (pending fl) [],
               acc @ filter (emits (dir_masks dir)) (pending fl),
               dirents + length (filter (emits (dir_masks dir)) (pending fl)))"
    by auto
  then show ?thesis
    by (subst scan_loop.simps) (simp add: assms(2))
qed

lemma left_layer:
  assumes "dir_files dir = fl # files"
  shows "apply_names (advance dir (pending fl) []) =
     dir\<lparr>dir_files := (if opaque_in (dir_masks dir) (pending fl) then [] else files),
         dir_names := [],
         dir_masks := dir_masks dir
           \<union> set (dir_names dir @ entry_names (dir_masks dir) (pending fl))\<rparr>"
  using assms by (simp add: apply_names_def advance_def)

lemma failed_layer:
  assumes "dir_files dir = fl # files"
  shows "advance dir (pending fl) [] =
     dir\<lparr>dir_files := fl\<lparr>pending := []\<rparr>
            # (if opaque_in (dir_masks dir) (pending fl) then [] else files),
         dir_names := dir_names dir @ entry_names (dir_masks dir) (pending fl)\<rparr>"
  using assms by (simp add: advance_def)

text \<open>
  Claim C8, as amended. Visibility resolution. A candidate for which \<^verbatim>\<open>fs.Stat\<close>
  answers not-exist is only removed from the candidates: the scan at the prefix gives
  what it gives without that candidate. When the candidates before \<open>l\<close> are passed over
  (each lacks the prefix, or has it as a directory with no whiteout marker) and
  \<^verbatim>\<open>fs.Stat\<close> on \<open>l\<close>, for the prefix or for a whiteout marker, answers another error,
  the scan ends with that error, whatever the candidates after \<open>l\<close> are. A marker that
  is missing counts as absent, and another error on a marker is the error of
  \<^verbatim>\<open>hasOneOf\<close>. The walk ends with the error of the scan at a prefix, and goes on with
  the candidates the scan returns otherwise; \<^verbatim>\<open>lookup\<close> returns the error of the
  walk, and \<^verbatim>\<open>Open\<close>, \<^verbatim>\<open>Sub\<close> and \<^verbatim>\<open>ReadLink\<close> return the error of \<^verbatim>\<open>lookup\<close>.
  Whatever error \<^verbatim>\<open>lookup\<close> returns is its own Not Found or, unchanged, an error of
  \<^verbatim>\<open>fs.Stat\<close> on a layer that is not not-exist.

  Directory reading with a positive count. When the directory of the current layer
  ends with an error other than \<^verbatim>\<open>io.EOF\<close> (not-exist included) before the count is
  reached, the scan returns the entries of that layer with that error, unchanged, and
  the cursor stays at that layer, the layers below it not having been read. When it
  ends without error or with \<^verbatim>\<open>io.EOF\<close> before the count is reached, the scan goes
  on with the layer below. An error other than \<^verbatim>\<open>io.EOF\<close> that \<^verbatim>\<open>ReadDir\<close> returns
  is, unchanged, the error of a layer's directory, on a call with a positive count.
\<close>

theorem layer_errors_surface:
  "(not_exist fs_Stat l pth \<longrightarrow>
      lookup_layers fs_Stat pth w1 wA (xs @ l # ys) 0
        = lookup_layers fs_Stat pth w1 wA (xs @ ys) 0)
   \<and> ((\<forall>x \<in> set xs. passes fs_Stat pth w1 wA x)
        \<and> (fs_Stat l pth = Inl err \<and> \<not> errors_Is err ErrNotExist
           \<or> (\<exists>s. fs_Stat l pth = Inr s \<and> IsDir s \<and> hasOneOf fs_Stat l [w1, wA] = Inl err))
      \<longrightarrow> lookup_layers fs_Stat pth w1 wA (xs @ l # ys) 0 = Inl err)
   \<and> ((\<forall>m \<in> set ms. not_exist fs_Stat l m)
        \<and> fs_Stat l m' = Inl err \<and> \<not> errors_Is err ErrNotExist
      \<longrightarrow> hasOneOf fs_Stat l (ms @ m' # ms') = Inl err)
   \<and> (walk < length path \<and> cands \<noteq> []
        \<and> walk1 = (case IndexByte (drop walk path) CHR ''/'' of
                     None \<Rightarrow> length path | Some i \<Rightarrow> walk + i)
      \<longrightarrow> lookup_walk fs_Stat path walk cands
            = (case lookup_layers fs_Stat (take walk1 path) (fst (whiteout (take walk1 path)))
                      (snd (whiteout (take walk1 path))) cands 0 of
                 Inl e \<Rightarrow> Inl e
               | Inr cands1 \<Rightarrow> lookup_walk fs_Stat path (walk1 + 1) cands1))
   \<and> (ValidPath name \<and> name \<noteq> ''.'' \<and> lookup_walk fs_Stat name 0 layers = Inl err
      \<longrightarrow> lookup fs_Stat op' name layers = Inl err)
   \<and> (lookup fs_Stat ''open'' name layers = Inl err
      \<longrightarrow> Open fs_Stat layer_Open name layers = (Inl err, [])
          \<and> Sub fs_Stat fslink_Sub name layers = Inl err)
   \<and> (lookup fs_Stat ''readlink'' name layers = Inl err
      \<longrightarrow> ReadLink fs_Stat fslink_ReadLink name layers = Inl err)
   \<and> (lookup fs_Stat op' name layers = Inl err \<longrightarrow>
        err = PathError op' name ErrNotExist
        \<or> (\<exists>l \<in> set layers. \<exists>p. fs_Stat l p = Inl err \<and> \<not> errors_Is err ErrNotExist))
   \<and> (dirents < k \<and> dir_files dir = fl # files \<and> failure fl = Some err \<and> err \<noteq> EOF
        \<and> dirents + length (filter (emits (dir_masks dir)) (pending fl)) < k
      \<longrightarrow> scan_loop k collect dir acc dirents =
            Some (Some err,
                  dir\<lparr>dir_files := fl\<lparr>pending := []\<rparr>
                         # (if opaque_in (dir_masks dir) (pending fl) then [] else files),
                      dir_names := dir_names dir @ entry_names (dir_masks dir) (pending fl)\<rparr>,
                  acc @ filter (emits (dir_masks dir)) (pending fl)))
   \<and> (dirents < k \<and> dir_files dir = fl # files
        \<and> (failure fl = None \<or> failure fl = Some EOF)
        \<and> dirents + length (filter (emits (dir_masks dir)) (pending fl)) < k
      \<longrightarrow> scan_loop k collect dir acc dirents =
            scan_loop k collect
              (dir\<lparr>dir_files := (if opaque_in (dir_masks dir) (pending fl) then [] else files),
                   dir_names := [],
                   dir_masks := dir_masks dir
                     \<union> set (dir_names dir @ entry_names (dir_masks dir) (pending fl))\<rparr>)
              (acc @ filter (emits (dir_masks dir)) (pending fl))
              (dirents + length (filter (emits (dir_masks dir)) (pending fl))))
   \<and> (0 < n \<and> dir_files (cursor a f) = fl # files \<and> failure fl = Some err \<and> err \<noteq> EOF
        \<and> length (filter (emits (dir_masks (cursor a f))) (pending fl)) < nat n
      \<longrightarrow> (\<exists>f'. ReadDir a n f
             = Some ((filter (emits (dir_masks (cursor a f))) (pending fl), Some err), f')
           \<and> dir_files (cursor a f') =
               fl\<lparr>pending := []\<rparr>
               # (if opaque_in (dir_masks (cursor a f)) (pending fl) then [] else files)))
   \<and> (ReadDir a n f = Some ((out, Some err), f') \<and> err \<noteq> EOF
      \<longrightarrow> 0 < n \<and> (\<exists>d \<in> set (dir_files (cursor a f)). failure d = Some err))"
proof (intro conjI impI)
  assume "not_exist fs_Stat l pth"
  then show "lookup_layers fs_Stat pth w1 wA (xs @ l # ys) 0
        = lookup_layers fs_Stat pth w1 wA (xs @ ys) 0"
    using lookup_layers_level [of 0 "xs @ l # ys" fs_Stat pth w1 wA]
      lookup_layers_level [of 0 "xs @ ys" fs_Stat pth w1 wA]
      lookup_level_remove [of fs_Stat l pth w1 wA "[]" xs ys]
    by simp
next
  assume h: "(\<forall>x \<in> set xs. passes fs_Stat pth w1 wA x)
        \<and> (fs_Stat l pth = Inl err \<and> \<not> errors_Is err ErrNotExist
           \<or> (\<exists>s. fs_Stat l pth = Inr s \<and> IsDir s \<and> hasOneOf fs_Stat l [w1, wA] = Inl err))"
  then have "lookup_level fs_Stat pth w1 wA [] (xs @ l # ys) = Inl err"
    by (intro lookup_level_abort) simp_all
  then show "lookup_layers fs_Stat pth w1 wA (xs @ l # ys) 0 = Inl err"
    using lookup_layers_level [of 0 "xs @ l # ys" fs_Stat pth w1 wA] by simp
next
  assume "(\<forall>m \<in> set ms. not_exist fs_Stat l m)
        \<and> fs_Stat l m' = Inl err \<and> \<not> errors_Is err ErrNotExist"
  then show "hasOneOf fs_Stat l (ms @ m' # ms') = Inl err"
    by (intro hasOneOf_abort) simp_all
next
  assume "walk < length path \<and> cands \<noteq> []
        \<and> walk1 = (case IndexByte (drop walk path) CHR ''/'' of
                     None \<Rightarrow> length path | Some i \<Rightarrow> walk + i)"
  then show "lookup_walk fs_Stat path walk cands
            = (case lookup_layers fs_Stat (take walk1 path) (fst (whiteout (take walk1 path)))
                      (snd (whiteout (take walk1 path))) cands 0 of
                 Inl e \<Rightarrow> Inl e
               | Inr cands1 \<Rightarrow> lookup_walk fs_Stat path (walk1 + 1) cands1)"
    by (subst lookup_walk.simps) (clarsimp simp: Let_def)
next
  assume "ValidPath name \<and> name \<noteq> ''.'' \<and> lookup_walk fs_Stat name 0 layers = Inl err"
  then show "lookup fs_Stat op' name layers = Inl err"
    by (simp add: lookup_def)
next
  assume "lookup fs_Stat ''open'' name layers = Inl err"
  then show "Open fs_Stat layer_Open name layers = (Inl err, [])"
    "Sub fs_Stat fslink_Sub name layers = Inl err"
    by (simp_all add: Open_def Sub_def)
next
  assume "lookup fs_Stat ''readlink'' name layers = Inl err"
  then show "ReadLink fs_Stat fslink_ReadLink name layers = Inl err"
    by (simp add: ReadLink_def)
next
  assume "lookup fs_Stat op' name layers = Inl err"
  then show "err = PathError op' name ErrNotExist
        \<or> (\<exists>l \<in> set layers. \<exists>p. fs_Stat l p = Inl err \<and> \<not> errors_Is err ErrNotExist)"
    by (rule lookup_error)
next
  assume h: "dirents < k \<and> dir_files dir = fl # files \<and> failure fl = Some err \<and> err \<noteq> EOF
        \<and> dirents + length (filter (emits (dir_masks dir)) (pending fl)) < k"
  then have "scan_loop k collect dir acc dirents =
     Some (Some err, advance dir (pending fl) [],
           acc @ filter (emits (dir_masks dir)) (pending fl))"
    by (intro scan_loop_fail) simp_all
  moreover have "dir_files dir = fl # files" using h by simp
  ultimately show "scan_loop k collect dir acc dirents =
            Some (Some err,
                  dir\<lparr>dir_files := fl\<lparr>pending := []\<rparr>
                         # (if opaque_in (dir_masks dir) (pending fl) then [] else files),
                      dir_names := dir_names dir @ entry_names (dir_masks dir) (pending fl)\<rparr>,
                  acc @ filter (emits (dir_masks dir)) (pending fl))"
    using failed_layer [of dir fl files] by simp
next
  assume h: "dirents < k \<and> dir_files dir = fl # files
        \<and> (failure fl = None \<or> failure fl = Some EOF)
        \<and> dirents + length (filter (emits (dir_masks dir)) (pending fl)) < k"
  then have "scan_loop k collect dir acc dirents =
     scan_loop k collect (apply_names (advance dir (pending fl) []))
       (acc @ filter (emits (dir_masks dir)) (pending fl))
       (dirents + length (filter (emits (dir_masks dir)) (pending fl)))"
    by (intro scan_loop_next) simp_all
  moreover have "dir_files dir = fl # files" using h by simp
  ultimately show "scan_loop k collect dir acc dirents =
            scan_loop k collect
              (dir\<lparr>dir_files := (if opaque_in (dir_masks dir) (pending fl) then [] else files),
                   dir_names := [],
                   dir_masks := dir_masks dir
                     \<union> set (dir_names dir @ entry_names (dir_masks dir) (pending fl))\<rparr>)
              (acc @ filter (emits (dir_masks dir)) (pending fl))
              (dirents + length (filter (emits (dir_masks dir)) (pending fl)))"
    using left_layer [of dir fl files] by simp
next
  assume "0 < n \<and> dir_files (cursor a f) = fl # files \<and> failure fl = Some err \<and> err \<noteq> EOF
        \<and> length (filter (emits (dir_masks (cursor a f))) (pending fl)) < nat n"
  then show "\<exists>f'. ReadDir a n f
             = Some ((filter (emits (dir_masks (cursor a f))) (pending fl), Some err), f')
           \<and> dir_files (cursor a f') =
               fl\<lparr>pending := []\<rparr>
               # (if opaque_in (dir_masks (cursor a f)) (pending fl) then [] else files)"
    by (intro ReadDir_fails) simp_all
next
  assume h: "ReadDir a n f = Some ((out, Some err), f') \<and> err \<noteq> EOF"
  then show "0 < n" "\<exists>d \<in> set (dir_files (cursor a f)). failure d = Some err"
    using ReadDir_error_sound [of a n f out err f'] by simp_all
qed

text \<open>
  Claim C8 as stated fails in directory reading: the directory of the first layer ends
  with a not-exist error, and \<^verbatim>\<open>ReadDir\<close> returns that error instead of leaving the
  layer and listing the \<open>x\<close> of the second.
\<close>

theorem layer_errors_counterexample:
  "map_option fst (ReadDir Some 1 c8_handle)
     = Some ([], Some (PathError ''readdir'' ''d'' ErrNotExist))
   \<and> errors_Is (PathError ''readdir'' ''d'' ErrNotExist) ErrNotExist"
  by code_simp

lemma e_missing: "not_exist e_Stat 0 ''a''"
  by code_simp

lemma e_passes:
  "(\<forall>x \<in> set [0]. passes e_Stat ''a'' ''.wh.a'' ''.wh..wh..opq'' x)
   \<and> (e_Stat 1 ''a'' = Inl (PathError ''stat'' ''a'' ErrPermission)
        \<and> \<not> errors_Is (PathError ''stat'' ''a'' ErrPermission) ErrNotExist
      \<or> (\<exists>s. e_Stat 1 ''a'' = Inr s \<and> IsDir s
            \<and> hasOneOf e_Stat 1 [''.wh.a'', ''.wh..wh..opq'']
                = Inl (PathError ''stat'' ''a'' ErrPermission)))"
  by (simp add: passes_def not_exist_def e_Stat_def)

lemma e_marker:
  "(\<forall>m \<in> set [''.wh.a'']. not_exist e_Stat 3 m)
   \<and> e_Stat 3 ''.wh..wh..opq'' = Inl (PathError ''stat'' ''.wh..wh..opq'' ErrPermission)
   \<and> \<not> errors_Is (PathError ''stat'' ''.wh..wh..opq'' ErrPermission) ErrNotExist"
  by (simp add: not_exist_def e_Stat_def)

lemma e_walk:
  "(0::nat) < length ''a'' \<and> [0, 1, 2 :: nat] \<noteq> []
   \<and> 1 = (case IndexByte (drop 0 ''a'') CHR ''/'' of
            None \<Rightarrow> length ''a'' | Some i \<Rightarrow> 0 + i)"
  by code_simp

lemma e_level:
  "lookup_layers e_Stat (take 1 ''a'') (fst (whiteout (take 1 ''a'')))
        (snd (whiteout (take 1 ''a''))) [0, 1, 2] 0
       = Inl (PathError ''stat'' ''a'' ErrPermission)"
  by code_simp

lemma e_valid: "ValidPath ''a'' \<and> ''a'' \<noteq> ''.''"
  by code_simp

lemma e_handle_cursor:
  "dir_files (cursor Some e_handle)
       = \<lparr>pending = [w_entry ''a''], failure = Some ErrPermission\<rparr> # [w_stream [''x'']]
   \<and> dir_masks (cursor Some e_handle) = {} \<and> dir_names (cursor Some e_handle) = []"
  by (simp add: cursor_def new_dirReader_def e_handle_def map_filter_simps)

lemma e2_handle_cursor:
  "cursor Some e2_handle
     = \<lparr>dir_files = w_stream [''a'']
          # [\<lparr>pending = [w_entry ''b''], failure = Some ErrPermission\<rparr>, w_stream [''x'']],
        dir_names = [], dir_masks = {}\<rparr>"
  by (simp add: cursor_def new_dirReader_def e2_handle_def map_filter_simps)

lemma e_emits: "emits {} (w_entry ''a'')" "emits {''a''} (w_entry ''b'')"
  "\<not> opaque_in M [w_entry ''a'']" "\<not> opaque_in M [w_entry ''b'']"
  by (simp_all add: emits_def opaque_in_def w_entry_def whiteoutOpaque_def whiteoutPrefix_def
      HasPrefix_def)

theorem layer_errors_surface_witness:
  "lookup_layers e_Stat ''a'' ''.wh.a'' ''.wh..wh..opq'' ([] @ 0 # [1, 2]) 0
     = lookup_layers e_Stat ''a'' ''.wh.a'' ''.wh..wh..opq'' ([] @ [1, 2]) 0
   \<and> lookup_layers e_Stat ''a'' ''.wh.a'' ''.wh..wh..opq'' ([0] @ 1 # [2]) 0
       = Inl (PathError ''stat'' ''a'' ErrPermission)
   \<and> hasOneOf e_Stat 3 ([''.wh.a''] @ ''.wh..wh..opq'' # [])
       = Inl (PathError ''stat'' ''.wh..wh..opq'' ErrPermission)
   \<and> lookup_walk e_Stat ''a'' 0 [0, 1, 2] = Inl (PathError ''stat'' ''a'' ErrPermission)
   \<and> lookup e_Stat ''open'' ''a'' [0, 1, 2] = Inl (PathError ''stat'' ''a'' ErrPermission)
   \<and> Open e_Stat d_Open ''a'' [0, 1, 2] = (Inl (PathError ''stat'' ''a'' ErrPermission), [])
   \<and> Sub e_Stat (\<lambda>l p. Inr l) ''a'' [0, 1, 2] = Inl (PathError ''stat'' ''a'' ErrPermission)
   \<and> ReadLink e_Stat (\<lambda>l p. Inr p) ''a'' [0, 1, 2]
       = Inl (PathError ''stat'' ''a'' ErrPermission)
   \<and> (\<exists>l \<in> set [0, 1, 2]. \<exists>p. e_Stat l p = Inl (PathError ''stat'' ''a'' ErrPermission))
   \<and> map_option (\<lambda>(err, dir', out). (err, map pending (dir_files dir'), out))
        (scan_loop 5 collect (cursor Some e2_handle) [] 0)
       = Some (Some ErrPermission, [[], [w_entry ''x'']], [w_entry ''a'', w_entry ''b''])
   \<and> (\<exists>f'. ReadDir Some 5 e_handle = Some (([w_entry ''a''], Some ErrPermission), f')
         \<and> map pending (dir_files (cursor Some f')) = [[], [w_entry ''x'']])
   \<and> (\<exists>d \<in> set (dir_files (cursor Some e_handle)). failure d = Some ErrPermission)"
proof -
  let ?perm = "PathError ''stat'' ''a'' ErrPermission"
  note tl = layer_errors_surface [where fs_Stat = e_Stat and pth = "''a''"
      and ?w1.0 = "''.wh.a''" and wA = "''.wh..wh..opq''"
      and path = "''a''" and walk = 0 and ?walk1.0 = 1 and cands = "[0, 1, 2]"
      and name = "''a''" and layers = "[0, 1, 2]"]
  have 1: "lookup_layers e_Stat ''a'' ''.wh.a'' ''.wh..wh..opq'' ([] @ 0 # [1, 2]) 0
     = lookup_layers e_Stat ''a'' ''.wh.a'' ''.wh..wh..opq'' ([] @ [1, 2]) 0"
    using tl [where l = 0 and xs = "[]" and ys = "[1, 2]", THEN conjunct1, rule_format,
        OF e_missing] .
  have 2: "lookup_layers e_Stat ''a'' ''.wh.a'' ''.wh..wh..opq'' ([0] @ 1 # [2]) 0 = Inl ?perm"
    using tl [where l = 1 and xs = "[0]" and ys = "[2]" and err = ?perm,
        THEN conjunct2, THEN conjunct1, rule_format, OF e_passes] .
  have 3: "hasOneOf e_Stat 3 ([''.wh.a''] @ ''.wh..wh..opq'' # [])
       = Inl (PathError ''stat'' ''.wh..wh..opq'' ErrPermission)"
    using tl [where l = 3 and ms = "[''.wh.a'']" and m' = "''.wh..wh..opq''" and ms' = "[]"
        and err = "PathError ''stat'' ''.wh..wh..opq'' ErrPermission",
        THEN conjunct2, THEN conjunct2, THEN conjunct1, rule_format, OF e_marker] .
  have 4: "lookup_walk e_Stat ''a'' 0 [0, 1, 2] = Inl ?perm"
    using tl [THEN conjunct2, THEN conjunct2, THEN conjunct2, THEN conjunct1, rule_format,
        OF e_walk]
    unfolding e_level by simp
  have "ValidPath ''a'' \<and> ''a'' \<noteq> ''.'' \<and> lookup_walk e_Stat ''a'' 0 [0, 1, 2] = Inl ?perm"
    using e_valid 4 by simp
  note 5 = tl [where err = ?perm, THEN conjunct2, THEN conjunct2, THEN conjunct2,
      THEN conjunct2, THEN conjunct1, rule_format, OF this]
  have 6: "Open e_Stat d_Open ''a'' [0, 1, 2] = (Inl ?perm, [])
      \<and> Sub e_Stat (\<lambda>l p. Inr l) ''a'' [0, 1, 2] = Inl ?perm"
    using tl [where err = ?perm and layer_Open = d_Open and fslink_Sub = "\<lambda>l p. Inr l",
        THEN conjunct2, THEN conjunct2, THEN conjunct2, THEN conjunct2, THEN conjunct2,
        THEN conjunct1, rule_format, OF 5 [where op' = "''open''"]] .
  have 7: "ReadLink e_Stat (\<lambda>l p. Inr p) ''a'' [0, 1, 2] = Inl ?perm"
    using tl [where err = ?perm and fslink_ReadLink = "\<lambda>l p. Inr p",
        THEN conjunct2, THEN conjunct2, THEN conjunct2, THEN conjunct2, THEN conjunct2,
        THEN conjunct2, THEN conjunct1, rule_format, OF 5 [where op' = "''readlink''"]] .
  have "?perm = PathError ''open'' ''a'' ErrNotExist
      \<or> (\<exists>l \<in> set [0, 1, 2]. \<exists>p. e_Stat l p = Inl ?perm \<and> \<not> errors_Is ?perm ErrNotExist)"
    using tl [where err = ?perm and op' = "''open''",
        THEN conjunct2, THEN conjunct2, THEN conjunct2, THEN conjunct2, THEN conjunct2,
        THEN conjunct2, THEN conjunct2, THEN conjunct1, rule_format,
        OF 5 [where op' = "''open''"]] .
  then have 8: "\<exists>l \<in> set [0, 1, 2]. \<exists>p. e_Stat l p = Inl ?perm"
    by auto
  let ?top = "w_stream [''a'']"
  let ?bad = "\<lparr>pending = [w_entry ''b''], failure = Some ErrPermission\<rparr>"
  let ?d0 = "\<lparr>dir_files = ?top # [?bad, w_stream [''x'']], dir_names = [], dir_masks = {}\<rparr>"
  let ?d1 = "\<lparr>dir_files = [?bad, w_stream [''x'']], dir_names = [], dir_masks = {''a''}\<rparr>"
  note ts = layer_errors_surface [where k = 5 and err = ErrPermission]
  have h0: "(0::nat) < 5 \<and> dir_files ?d0 = ?top # [?bad, w_stream [''x'']]
      \<and> (failure ?top = None \<or> failure ?top = Some EOF)
      \<and> 0 + length (filter (emits (dir_masks ?d0)) (pending ?top)) < 5"
    by (simp add: w_stream_def)
  have step: "scan_loop 5 collect ?d0 [] 0 = scan_loop 5 collect ?d1 [w_entry ''a''] 1"
    using ts [where dirents = 0 and dir = ?d0 and fl = ?top and files = "[?bad, w_stream [''x'']]"
        and acc = "[]",
        THEN conjunct2, THEN conjunct2, THEN conjunct2, THEN conjunct2, THEN conjunct2,
        THEN conjunct2, THEN conjunct2, THEN conjunct2, THEN conjunct2, THEN conjunct1,
        rule_format, OF h0]
    by (simp add: w_stream_def w_entry_def emits_def opaque_in_def whiteoutOpaque_def
        whiteoutPrefix_def HasPrefix_def)
  have h1: "(1::nat) < 5 \<and> dir_files ?d1 = ?bad # [w_stream [''x'']]
      \<and> failure ?bad = Some ErrPermission \<and> ErrPermission \<noteq> EOF
      \<and> 1 + length (filter (emits (dir_masks ?d1)) (pending ?bad)) < 5"
    by simp
  have fail: "scan_loop 5 collect ?d1 [w_entry ''a''] 1 =
      Some (Some ErrPermission,
            \<lparr>dir_files = [\<lparr>pending = [], failure = Some ErrPermission\<rparr>, w_stream [''x'']],
             dir_names = [''b''], dir_masks = {''a''}\<rparr>,
            [w_entry ''a'', w_entry ''b''])"
    using ts [where dirents = 1 and dir = ?d1 and fl = ?bad and files = "[w_stream [''x'']]"
        and acc = "[w_entry ''a'']",
        THEN conjunct2, THEN conjunct2, THEN conjunct2, THEN conjunct2, THEN conjunct2,
        THEN conjunct2, THEN conjunct2, THEN conjunct2, THEN conjunct1, rule_format, OF h1]
    by (simp add: w_entry_def emits_def opaque_in_def whiteoutOpaque_def
        whiteoutPrefix_def HasPrefix_def)
  have 9: "map_option (\<lambda>(err, dir', out). (err, map pending (dir_files dir'), out))
        (scan_loop 5 collect (cursor Some e2_handle) [] 0)
       = Some (Some ErrPermission, [[], [w_entry ''x'']], [w_entry ''a'', w_entry ''b''])"
    unfolding e2_handle_cursor step fail by (simp add: w_stream_def)
  note td = layer_errors_surface [where a = Some and n = 5 and f = e_handle
      and err = ErrPermission
      and fl = "\<lparr>pending = [w_entry ''a''], failure = Some ErrPermission\<rparr>"
      and files = "[w_stream [''x'']]"]
  have hd: "(0::int) < 5
      \<and> dir_files (cursor Some e_handle)
          = \<lparr>pending = [w_entry ''a''], failure = Some ErrPermission\<rparr> # [w_stream [''x'']]
      \<and> failure \<lparr>pending = [w_entry ''a''], failure = Some ErrPermission\<rparr> = Some ErrPermission
      \<and> ErrPermission \<noteq> EOF
      \<and> length (filter (emits (dir_masks (cursor Some e_handle)))
           (pending \<lparr>pending = [w_entry ''a''], failure = Some ErrPermission\<rparr>)) < nat 5"
    using e_handle_cursor by simp
  from td [THEN conjunct2, THEN conjunct2, THEN conjunct2, THEN conjunct2, THEN conjunct2,
      THEN conjunct2, THEN conjunct2, THEN conjunct2, THEN conjunct2, THEN conjunct2,
      THEN conjunct1, rule_format, OF hd]
  have 10: "\<exists>f'. ReadDir Some 5 e_handle = Some (([w_entry ''a''], Some ErrPermission), f')
         \<and> map pending (dir_files (cursor Some f')) = [[], [w_entry ''x'']]"
    by (auto simp: e_handle_cursor e_emits w_stream_def)
  then obtain g where g: "ReadDir Some 5 e_handle = Some (([w_entry ''a''], Some ErrPermission), g)"
    by blast
  have "ReadDir Some 5 e_handle = Some (([w_entry ''a''], Some ErrPermission), g)
      \<and> ErrPermission \<noteq> EOF"
    using g by simp
  from layer_errors_surface [where a = Some and n = 5 and f = e_handle and err = ErrPermission
      and out = "[w_entry ''a'']" and f' = g,
      THEN conjunct2, THEN conjunct2, THEN conjunct2, THEN conjunct2, THEN conjunct2,
      THEN conjunct2, THEN conjunct2, THEN conjunct2, THEN conjunct2, THEN conjunct2,
      THEN conjunct2, rule_format, OF this]
  have 11: "\<exists>d \<in> set (dir_files (cursor Some e_handle)). failure d = Some ErrPermission"
    by simp
  show ?thesis
    using 1 2 3 4 5 [where op' = "''open''"] 6 7 8 9 10 11 by (intro conjI) simp_all
qed

text \<open>
  With a count \<open>n \<le> 0\<close> the error a layer's directory ends with is not returned: the
  loop leaves the layer on \<^verbatim>\<open>n == 0\<close> before it looks at the error, and the call lists
  the layer below.
\<close>

lemma unbounded_read_drops_error:
  "map_option fst (ReadDir Some 0 e_handle) = Some ([w_entry ''a'', w_entry ''x''], None)"
  by code_simp

end
